theory Spec2Isabelle
  imports Main
begin

section \<open>Longest palindromes at every centre: the embedding\<close>

text \<open>
  The repository is one Python module, \<^verbatim>\<open>longest_palindrome.py\<close>, with two functions:
  \<^verbatim>\<open>fast_longest_palindromes\<close> (linear time) and \<^verbatim>\<open>naive_longest_palindromes\<close>
  (quadratic time). Python integers are unbounded, so they are \<^typ>\<open>int\<close> here; a
  sequence is a list over any type (HOL equality is Python's \<^verbatim>\<open>==\<close> on the elements);
  a subscript that Python rejects is the value \<open>Inl IndexError\<close>.
\<close>

subsection \<open>Python subscripts, slices and max\<close>

datatype error = IndexError | ValueError

text \<open>\<^verbatim>\<open>xs[i]\<close>: a negative subscript counts from the end, anything out of range raises.\<close>

definition py_index :: "'a list \<Rightarrow> int \<Rightarrow> error + 'a" where
  "py_index xs i =
     (if 0 \<le> i \<and> i < int (length xs) then Inr (xs ! nat i)
      else if i < 0 \<and> 0 \<le> int (length xs) + i then Inr (xs ! nat (int (length xs) + i))
      else Inl IndexError)"

text \<open>\<^verbatim>\<open>xs[a:b]\<close>: both bounds are clamped to the list, negative ones count from the end.\<close>

definition py_clamp :: "'a list \<Rightarrow> int \<Rightarrow> nat" where
  "py_clamp xs a =
     (if a < 0 then nat (max 0 (int (length xs) + a)) else nat (min a (int (length xs))))"

definition py_slice :: "'a list \<Rightarrow> int \<Rightarrow> int \<Rightarrow> 'a list" where
  "py_slice xs a b = take (py_clamp xs b - py_clamp xs a) (drop (py_clamp xs a) xs)"

text \<open>\<^verbatim>\<open>max(xs)\<close> raises ValueError on the empty list.\<close>

definition py_max :: "int list \<Rightarrow> error + int" where
  "py_max xs = (case xs of [] \<Rightarrow> Inl ValueError | y # ys \<Rightarrow> Inr (fold max ys y))"

subsection \<open>\<^verbatim>\<open>naive_longest_palindromes\<close>\<close>

text \<open>
  The \<^verbatim>\<open>while\<close> loop of lines 149 to 151. The conjunction short-circuits, so the two
  subscripts are read only when \<open>start > 0\<close> and \<open>end < len_seq\<close>.
\<close>

function expand :: "'a list \<Rightarrow> int \<Rightarrow> int \<Rightarrow> error + (int \<times> int)" where
  "expand seq start end =
     (if start > 0 \<and> end < int (length seq) then
        (case py_index seq (start - 1) of
           Inl e \<Rightarrow> Inl e
         | Inr a \<Rightarrow>
            (case py_index seq end of
               Inl e \<Rightarrow> Inl e
             | Inr b \<Rightarrow> if a = b then expand seq (start - 1) (end + 1) else Inr (start, end)))
      else Inr (start, end))"
  by pat_completeness auto
termination
  by (relation "measure (\<lambda>(seq, start, end). nat start)") auto

declare expand.simps [simp del]

text \<open>The body of the \<^verbatim>\<open>for\<close> loop of line 141: the value appended for index \<open>i\<close>.\<close>

definition naive_entry :: "'a list \<Rightarrow> int \<Rightarrow> error + int" where
  "naive_entry seq i =
     (let start = i div 2;
          end = start + i mod 2
      in case expand seq start end of
           Inl e \<Rightarrow> Inl e
         | Inr (start', end') \<Rightarrow> Inr (end' - start'))"

fun naive_loop :: "'a list \<Rightarrow> int list \<Rightarrow> int list \<Rightarrow> error + int list" where
  "naive_loop seq [] best_lengths = Inr best_lengths"
| "naive_loop seq (i # is) best_lengths =
     (case naive_entry seq i of
        Inl e \<Rightarrow> Inl e
      | Inr v \<Rightarrow> naive_loop seq is (best_lengths @ [v]))"

definition naive_longest_palindromes :: "'a list \<Rightarrow> error + int list" where
  "naive_longest_palindromes seq =
     (let len_seq = int (length seq);
          size = 2 * len_seq + 1
      in naive_loop seq (map int [0 ..< nat size]) [])"

subsection \<open>\<^verbatim>\<open>fast_longest_palindromes\<close>\<close>

text \<open>
  The inner \<^verbatim>\<open>for j in range(start, end, -1)\<close> of lines 52 to 78, from index \<open>j\<close> on.
  The result is \<open>Some d\<close> when the loop left by \<^verbatim>\<open>break\<close> (with \<open>pal_len = d\<close>) and
  \<open>None\<close> when it ran to its end, which is when the \<^verbatim>\<open>else\<close> block runs.
\<close>

function inner_loop :: "int \<Rightarrow> int \<Rightarrow> int list \<Rightarrow> error + (int option \<times> int list)" where
  "inner_loop j end best_lengths =
     (if j > end then
        (let d = j - end - 1
         in case py_index best_lengths j of
              Inl e \<Rightarrow> Inl e
            | Inr v \<Rightarrow>
                if v = d then Inr (Some d, best_lengths)
                else inner_loop (j - 1) end (best_lengths @ [min d v]))
      else Inr (None, best_lengths))"
  by pat_completeness auto
termination
  by (relation "measure (\<lambda>(j, end, best_lengths). nat (j - end))") auto

declare inner_loop.simps [simp del]

text \<open>The test of line 28; \<^verbatim>\<open>and\<close> short-circuits, the left subscript is read first.\<close>

definition can_extend :: "'a list \<Rightarrow> int \<Rightarrow> int \<Rightarrow> error + bool" where
  "can_extend seq i pal_len =
     (if i > pal_len then
        (case py_index seq (i - pal_len - 1) of
           Inl e \<Rightarrow> Inl e
         | Inr a \<Rightarrow> (case py_index seq i of Inl e \<Rightarrow> Inl e | Inr b \<Rightarrow> Inr (a = b)))
      else Inr False)"

text \<open>
  One pass through the body of the \<^verbatim>\<open>while\<close> loop (lines 26 to 86) on the state
  \<open>(i, pal_len, best_lengths)\<close>.
\<close>

definition main_step :: "'a list \<Rightarrow> int \<times> int \<times> int list \<Rightarrow> error + (int \<times> int \<times> int list)" where
  "main_step seq st =
     (case st of (i, pal_len, best_lengths) \<Rightarrow>
        (case can_extend seq i pal_len of
           Inl e \<Rightarrow> Inl e
         | Inr True \<Rightarrow> Inr (i + 1, pal_len + 2, best_lengths)
         | Inr False \<Rightarrow>
             (let bl = best_lengths @ [pal_len];
                  start = int (length bl) - 2;
                  end = start - pal_len
              in case inner_loop start end bl of
                   Inl e \<Rightarrow> Inl e
                 | Inr (Some d, bl') \<Rightarrow> Inr (i, d, bl')
                 | Inr (None, bl') \<Rightarrow> Inr (i + 1, 1, bl'))))"

lemma inner_loop_break:
  "inner_loop j e bl = Inr (Some d, bl') \<Longrightarrow> 0 \<le> d \<and> d < j - e"
proof (induction j e bl rule: inner_loop.induct)
  case (1 j e bl)
  show ?case
  proof (cases "j > e")
    case False
    with "1.prems" show ?thesis by (simp add: inner_loop.simps[of j])
  next
    case True
    show ?thesis
    proof (cases "py_index bl j")
      case (Inl err)
      with True "1.prems" show ?thesis by (simp add: inner_loop.simps[of j])
    next
      case (Inr v)
      show ?thesis
      proof (cases "v = j - e - 1")
        case True
        with \<open>j > e\<close> Inr "1.prems" show ?thesis by (auto simp: inner_loop.simps[of j])
      next
        case False
        with \<open>j > e\<close> Inr "1.prems"
        have "inner_loop (j - 1) e (bl @ [min (j - e - 1) v]) = Inr (Some d, bl')"
          by (simp add: inner_loop.simps[of j] Let_def)
        from "1.IH"[OF \<open>j > e\<close> refl Inr False this] show ?thesis by simp
      qed
    qed
  qed
qed

lemma main_step_measure:
  assumes "main_step seq (i, p, bl) = Inr (i', p', bl')"
  shows "i' = i + 1 \<or> (i' = i \<and> 0 \<le> p' \<and> p' < p)"
proof (cases "can_extend seq i p")
  case (Inl err)
  with assms show ?thesis by (simp add: main_step_def)
next
  case (Inr b)
  show ?thesis
  proof (cases b)
    case True
    with Inr assms show ?thesis by (simp add: main_step_def)
  next
    case False
    let ?bl = "bl @ [p]"
    let ?start = "int (length ?bl) - 2"
    show ?thesis
    proof (cases "inner_loop ?start (?start - p) ?bl")
      case (Inl err)
      with Inr False assms show ?thesis by (simp add: main_step_def Let_def)
    next
      case r: (Inr res)
      obtain od bl2 where res: "res = (od, bl2)" by (cases res)
      show ?thesis
      proof (cases od)
        case None
        with r res Inr False assms show ?thesis by (simp add: main_step_def Let_def)
      next
        case (Some d)
        with r res have "inner_loop ?start (?start - p) ?bl = Inr (Some d, bl2)" by simp
        from inner_loop_break[OF this] have "0 \<le> d \<and> d < p" by simp
        with Some r res Inr False assms show ?thesis by (simp add: main_step_def Let_def)
      qed
    qed
  qed
qed

text \<open>The \<^verbatim>\<open>while i < len_seq\<close> loop of line 25.\<close>

function main_loop :: "'a list \<Rightarrow> int \<times> int \<times> int list \<Rightarrow> error + (int \<times> int \<times> int list)" where
  "main_loop seq (i, pal_len, best_lengths) =
     (if i < int (length seq) then
        (case main_step seq (i, pal_len, best_lengths) of
           Inl e \<Rightarrow> Inl e
         | Inr st \<Rightarrow> main_loop seq st)
      else Inr (i, pal_len, best_lengths))"
  by pat_completeness auto
termination
proof (relation "measures [\<lambda>(seq, i, p, bl). nat (int (length seq) - i), \<lambda>(seq, i, p, bl). nat p]")
  show "wf (measures [\<lambda>(seq, i, p, bl). nat (int (length seq) - i), \<lambda>(seq::'a list, i, p, bl::int list). nat p])"
    by simp
next
  fix seq :: "'a list" and i pal_len :: int and best_lengths :: "int list" and st
  assume lt: "i < int (length seq)" and step: "main_step seq (i, pal_len, best_lengths) = Inr st"
  obtain i' p' bl' where st: "st = (i', p', bl')" by (cases st)
  from main_step_measure[OF step[unfolded st]] lt
  show "((seq, st), (seq, i, pal_len, best_lengths))
          \<in> measures [\<lambda>(seq, i, p, bl). nat (int (length seq) - i), \<lambda>(seq, i, p, bl). nat p]"
    unfolding st by auto
qed

declare main_loop.simps [simp del]

text \<open>The finalisation loop of lines 101 to 108, from index \<open>i\<close> on.\<close>

function final_loop :: "int \<Rightarrow> int \<Rightarrow> int list \<Rightarrow> error + int list" where
  "final_loop i end best_lengths =
     (if i > end then
        (let d = i - end - 1
         in case py_index best_lengths i of
              Inl e \<Rightarrow> Inl e
            | Inr v \<Rightarrow> final_loop (i - 1) end (best_lengths @ [min d v]))
      else Inr best_lengths)"
  by pat_completeness auto
termination
  by (relation "measure (\<lambda>(i, end, best_lengths). nat (i - end))") auto

declare final_loop.simps [simp del]

definition fast_longest_palindromes :: "'a list \<Rightarrow> error + int list" where
  "fast_longest_palindromes seq =
     (let len_seq = int (length seq)
      in case main_loop seq (0, 0, []) of
           Inl e \<Rightarrow> Inl e
         | Inr (i, pal_len, best_lengths) \<Rightarrow>
             (let bl = best_lengths @ [pal_len];
                  size = int (length bl);
                  start = size - 2;
                  end = start - (2 * len_seq + 1 - size)
              in final_loop start end bl))"

subsection \<open>The palindrome an entry stands for\<close>

text \<open>
  The docstring of \<^verbatim>\<open>naive_longest_palindromes\<close> (lines 124 and 125): the palindrome for
  \<^verbatim>\<open>best_lengths[i]\<close> is \<^verbatim>\<open>seq[start:(start + best_lengths[i])]\<close> with
  \<^verbatim>\<open>start = i // 2 - best_lengths[i] // 2\<close>.
\<close>

definition palindrome_of :: "'a list \<Rightarrow> int \<Rightarrow> int \<Rightarrow> 'a list" where
  "palindrome_of seq i len = (let start = i div 2 - len div 2 in py_slice seq start (start + len))"

subsection \<open>The loops pass by pass\<close>

text \<open>
  To speak about the states a loop goes through, and not only about its result:
  \<open>main_iter k\<close> is the state at the head of the \<^verbatim>\<open>while\<close> loop after \<open>k\<close> passes
  through its body (or the final state, if the loop has ended before), and
  \<open>inner_iter k\<close> is the index and the list at the head of the inner \<^verbatim>\<open>for\<close> loop
  after \<open>k\<close> passes that appended (\<open>None\<close> if the loop has ended, left by
  \<^verbatim>\<open>break\<close> or raised before).
\<close>

fun main_iter :: "nat \<Rightarrow> 'a list \<Rightarrow> int \<times> int \<times> int list \<Rightarrow> error + (int \<times> int \<times> int list)" where
  "main_iter 0 seq st = Inr st"
| "main_iter (Suc k) seq (i, pal_len, best_lengths) =
     (if i < int (length seq) then
        (case main_step seq (i, pal_len, best_lengths) of
           Inl e \<Rightarrow> Inl e
         | Inr st \<Rightarrow> main_iter k seq st)
      else Inr (i, pal_len, best_lengths))"

fun inner_iter :: "nat \<Rightarrow> int \<Rightarrow> int \<Rightarrow> int list \<Rightarrow> (int \<times> int list) option" where
  "inner_iter 0 j end best_lengths = Some (j, best_lengths)"
| "inner_iter (Suc k) j end best_lengths =
     (if j > end then
        (let d = j - end - 1
         in case py_index best_lengths j of
              Inl e \<Rightarrow> None
            | Inr v \<Rightarrow>
                if v = d then None
                else inner_iter k (j - 1) end (best_lengths @ [min d v]))
      else None)"

section \<open>Palindromes around a centre\<close>

text \<open>
  Index \<open>k\<close> of the result stands for a centre: the element \<open>k div 2\<close> when \<open>k\<close> is
  odd, the gap before it when \<open>k\<close> is even. Element \<open>p\<close> sits at \<open>2 * p + 1\<close> on
  that scale, and \<open>p\<close> and \<open>k - 1 - p\<close> are mirror images around \<open>k\<close>.
  \<open>pal_at seq k L\<close>: the \<open>L\<close> elements around centre \<open>k\<close> lie inside \<open>seq\<close> and read
  the same in both directions; \<open>maxpal\<close>: and the \<open>L + 2\<close> elements do not.
\<close>

definition pal_at :: "'a list \<Rightarrow> int \<Rightarrow> int \<Rightarrow> bool" where
  "pal_at seq k L \<longleftrightarrow>
     0 \<le> L \<and> L \<le> k \<and> k + L \<le> 2 * int (length seq) \<and> even (k + L) \<and>
     (\<forall>p. k - L < 2 * p + 1 \<and> 2 * p + 1 < k + L \<longrightarrow> seq ! nat p = seq ! nat (k - 1 - p))"

definition maxpal :: "'a list \<Rightarrow> int \<Rightarrow> int \<Rightarrow> bool" where
  "maxpal seq k L \<longleftrightarrow> pal_at seq k L \<and> \<not> pal_at seq k (L + 2)"

text \<open>
  \<open>correct_prefix\<close>: every entry written so far is the maximal length at its centre;
  \<open>is_profile\<close>: a complete result; \<open>loop_inv\<close>: what holds at the head of the
  \<^verbatim>\<open>while\<close> loop, with the centre of the current palindrome at \<open>2 * i - pal_len\<close>.
\<close>

definition correct_prefix :: "'a list \<Rightarrow> int list \<Rightarrow> bool" where
  "correct_prefix seq bl \<longleftrightarrow> (\<forall>k < length bl. maxpal seq (int k) (bl ! k))"

definition is_profile :: "'a list \<Rightarrow> int list \<Rightarrow> bool" where
  "is_profile seq bl \<longleftrightarrow> length bl = 2 * length seq + 1 \<and> correct_prefix seq bl"

definition loop_inv :: "'a list \<Rightarrow> int \<times> int \<times> int list \<Rightarrow> bool" where
  "loop_inv seq st \<longleftrightarrow>
     (case st of (i, p, bl) \<Rightarrow>
        i \<le> int (length seq) \<and> pal_at seq (2 * i - p) p \<and>
        int (length bl) = 2 * i - p \<and> correct_prefix seq bl)"

subsection \<open>Growing, shrinking and mirroring palindromes\<close>

lemma pal_atD:
  "pal_at seq k L \<Longrightarrow> k - L < 2 * p + 1 \<Longrightarrow> 2 * p + 1 < k + L \<Longrightarrow> seq ! nat p = seq ! nat (k - 1 - p)"
  unfolding pal_at_def by blast

lemma pal_at_bounds:
  assumes "pal_at seq k L"
  shows "0 \<le> L" "L \<le> k" "k + L \<le> 2 * int (length seq)" "even (k + L)"
  using assms unfolding pal_at_def by blast+

lemma pal_atI:
  assumes "0 \<le> L" "L \<le> k" "k + L \<le> 2 * int (length seq)" "even (k + L)"
    and "\<And>p. k - L < 2 * p + 1 \<Longrightarrow> 2 * p + 1 < k + L \<Longrightarrow> seq ! nat p = seq ! nat (k - 1 - p)"
  shows "pal_at seq k L"
proof -
  have "\<forall>p. k - L < 2 * p + 1 \<and> 2 * p + 1 < k + L \<longrightarrow> seq ! nat p = seq ! nat (k - 1 - p)"
    using assms(5) by blast
  with assms(1-4) show ?thesis unfolding pal_at_def by blast
qed

lemma same_parity_step:
  fixes L M :: int
  assumes "even (k + L)" "even (k + M)" "L < M"
  shows "L + 2 \<le> M" "even (M - (L + 2))"
proof -
  from assms(1,2) have "even (M - L)" by simp
  then obtain t where t: "M - L = 2 * t" by (elim evenE)
  with assms(3) have "1 \<le> t" by arith
  with t show "L + 2 \<le> M" by arith
  from \<open>even (M - L)\<close> show "even (M - (L + 2))" by simp
qed

lemma pal_at_mono:
  assumes P: "pal_at seq k L" and M: "0 \<le> M" "M \<le> L" "even (k + M)"
  shows "pal_at seq k M"
proof (rule pal_atI)
  note b = pal_at_bounds(2,3)[OF P]
  from b M show "M \<le> k" by arith
  from b M show "k + M \<le> 2 * int (length seq)" by arith
  fix p assume "k - M < 2 * p + 1" "2 * p + 1 < k + M"
  with M have "k - L < 2 * p + 1" "2 * p + 1 < k + L" by arith+
  then show "seq ! nat p = seq ! nat (k - 1 - p)" by (rule pal_atD[OF P])
qed (use M in simp_all)

lemma pal_at_extend:
  assumes P: "pal_at seq k L" and b: "L + 2 \<le> k" "k + L + 2 \<le> 2 * int (length seq)"
    and eq: "seq ! nat ((k - L) div 2 - 1) = seq ! nat ((k + L) div 2)"
  shows "pal_at seq k (L + 2)"
proof (rule pal_atI)
  note ev = pal_at_bounds(4)[OF P] and L0 = pal_at_bounds(1)[OF P]
  from ev have "even (k - L)" by simp
  then obtain a where a: "k - L = 2 * a" by (elim evenE)
  have hi: "(k + L) div 2 = a + L" and lo: "(k - L) div 2 = a" using a by auto
  from eq have eq': "seq ! nat (a - 1) = seq ! nat (a + L)" unfolding hi lo .
  show "0 \<le> L + 2" using L0 by simp
  show "L + 2 \<le> k" by (rule b)
  show "k + (L + 2) \<le> 2 * int (length seq)" using b by simp
  show "even (k + (L + 2))" using ev by simp
  fix p assume r: "k - (L + 2) < 2 * p + 1" "2 * p + 1 < k + (L + 2)"
  show "seq ! nat p = seq ! nat (k - 1 - p)"
  proof (cases "p < a")
    case True
    with r a have "p = a - 1" by arith
    moreover from this a have "k - 1 - p = a + L" by arith
    ultimately show ?thesis using eq' by (simp only:)
  next
    case False
    show ?thesis
    proof (cases "a + L \<le> p")
      case True
      with r a have "p = a + L" by arith
      moreover from this a have "k - 1 - p = a - 1" by arith
      ultimately show ?thesis using eq' by (simp only:)
    next
      case F2: False
      with False a have "k - L < 2 * p + 1" "2 * p + 1 < k + L" by arith+
      then show ?thesis by (rule pal_atD[OF P])
    qed
  qed
qed

lemma pal_at_extendD:
  assumes P: "pal_at seq k (L + 2)" and L0: "0 \<le> L"
  shows "L + 2 \<le> k \<and> k + L + 2 \<le> 2 * int (length seq) \<and>
         seq ! nat ((k - L) div 2 - 1) = seq ! nat ((k + L) div 2)"
proof -
  note ev = pal_at_bounds(4)[OF P] and b = pal_at_bounds(2,3)[OF P]
  from ev have "even (k - L)" by simp
  then obtain a where a: "k - L = 2 * a" by (elim evenE)
  have hi: "(k + L) div 2 = a + L" and lo: "(k - L) div 2 = a" using a by auto
  have "seq ! nat (a - 1) = seq ! nat (k - 1 - (a - 1))"
    using a b L0 by (intro pal_atD[OF P]) arith+
  moreover have "k - 1 - (a - 1) = a + L" using a by arith
  ultimately have "seq ! nat (a - 1) = seq ! nat (a + L)" by (simp only:)
  then have "seq ! nat ((k - L) div 2 - 1) = seq ! nat ((k + L) div 2)" unfolding hi lo .
  with b show ?thesis by simp
qed

lemma pal_at_reflect:
  assumes C: "pal_at seq c L" and J: "pal_at seq j M"
    and inside: "c - L \<le> j - M" "j + M \<le> c + L"
  shows "pal_at seq (2 * c - j) M"
proof (rule pal_atI)
  note cb = pal_at_bounds[OF C]
  note jb = pal_at_bounds(1,2,4)[OF J]
  show "0 \<le> M" by (rule jb)
  show "M \<le> 2 * c - j" using cb jb inside by arith
  show "2 * c - j + M \<le> 2 * int (length seq)" using cb jb inside by arith
  show "even (2 * c - j + M)" using jb by simp
  fix p assume r: "2 * c - j - M < 2 * p + 1" "2 * p + 1 < 2 * c - j + M"
  let ?q = "2 * c - j - 1 - p"
  have 1: "seq ! nat p = seq ! nat (c - 1 - p)"
    using r inside by (intro pal_atD[OF C]) arith+
  have 2: "seq ! nat ?q = seq ! nat (c - 1 - ?q)"
    using r inside by (intro pal_atD[OF C]) arith+
  have 3: "seq ! nat (c - 1 - p) = seq ! nat (j - 1 - (c - 1 - p))"
    using r inside by (intro pal_atD[OF J]) arith+
  have "j - 1 - (c - 1 - p) = c - 1 - ?q" by arith
  with 1 2 3 show "seq ! nat p = seq ! nat ?q" by (simp only:)
qed

lemma maxpal_pal: "maxpal seq k L \<Longrightarrow> pal_at seq k L"
  by (simp add: maxpal_def)

lemma maxpal_greatest:
  assumes "maxpal seq k L" "pal_at seq k M"
  shows "M \<le> L"
proof (rule ccontr)
  assume "\<not> M \<le> L"
  then have lt: "L < M" by simp
  note evL = pal_at_bounds(4)[OF maxpal_pal[OF assms(1)]]
  note evM = pal_at_bounds(4)[OF assms(2)]
  note L0 = pal_at_bounds(1)[OF maxpal_pal[OF assms(1)]]
  have 1: "L + 2 \<le> M" by (rule same_parity_step(1)[OF evL evM lt])
  have 2: "even (k + (L + 2))" using evL by simp
  have 3: "0 \<le> L + 2" using L0 by simp
  have "pal_at seq k (L + 2)" by (rule pal_at_mono[OF assms(2) 3 1 2])
  with assms(1) show False by (simp add: maxpal_def)
qed

lemma maxpal_unique: "maxpal seq k L \<Longrightarrow> maxpal seq k M \<Longrightarrow> L = M"
  using maxpal_greatest[of seq k L M] maxpal_greatest[of seq k M L]
  by (simp add: maxpal_def)

lemma mirror_short:
  assumes C: "pal_at seq c L" and J: "maxpal seq j M"
    and jc: "j \<le> c" and lt: "M < j - (c - L)"
  shows "maxpal seq (2 * c - j) M"
proof -
  note cb = pal_at_bounds(1,2,4)[OF C]
  note JP = maxpal_pal[OF J]
  note jb = JP pal_at_bounds(1,2,4)[OF JP]
  have "even (j + (j - (c - L)))" using cb by simp
  with jb(4) have M2: "M + 2 \<le> j - (c - L)" using lt by (rule same_parity_step(1)[of j])
  have "pal_at seq (2 * c - j) M"
    using jc lt by (intro pal_at_reflect[OF C jb(1)]) arith+
  moreover have "\<not> pal_at seq (2 * c - j) (M + 2)"
  proof
    assume A: "pal_at seq (2 * c - j) (M + 2)"
    have "pal_at seq (2 * c - (2 * c - j)) (M + 2)"
      using jc M2 by (intro pal_at_reflect[OF C A]) arith+
    then have "pal_at seq j (M + 2)" by simp
    with J show False by (simp add: maxpal_def)
  qed
  ultimately show ?thesis by (simp add: maxpal_def)
qed

lemma mirror_long:
  assumes C: "maxpal seq c L" and J: "maxpal seq j M"
    and jc: "c - L \<le> j" "j < c" and ge: "j - (c - L) \<le> M"
    and cases: "j - (c - L) < M \<or> c + L = 2 * int (length seq)"
  shows "maxpal seq (2 * c - j) (j - (c - L))"
proof -
  let ?d = "j - (c - L)"
  let ?j' = "2 * c - j"
  from C have CP: "pal_at seq c L" and CN: "\<not> pal_at seq c (L + 2)" by (simp_all add: maxpal_def)
  note cb = pal_at_bounds[OF CP]
  from J have JP: "pal_at seq j M" by (simp add: maxpal_def)
  note jb = pal_at_bounds(1,2,4)[OF JP]
  have evd: "even (j + ?d)" using cb by simp
  have "0 \<le> ?d" using jc by simp
  then have Jd: "pal_at seq j ?d" using ge evd by (rule pal_at_mono[OF JP])
  have R: "pal_at seq ?j' ?d" using jc by (intro pal_at_reflect[OF CP Jd]) arith+
  have "\<not> pal_at seq ?j' (?d + 2)"
  proof
    assume A: "pal_at seq ?j' (?d + 2)"
    then have "?j' + (?d + 2) \<le> 2 * int (length seq)" by (rule pal_at_bounds(3))
    then have hi: "c + L + 2 \<le> 2 * int (length seq)" by arith
    with cases have "?d < M" by arith
    with evd jb(3) have d2: "?d + 2 \<le> M" by (rule same_parity_step(1)[of j])
    have "0 \<le> ?d + 2" using jc by simp
    moreover have "even (j + (?d + 2))" using cb by simp
    ultimately have Jd2: "pal_at seq j (?d + 2)" using d2 by (intro pal_at_mono[OF JP])
    then have "?d + 2 \<le> j" by (rule pal_at_bounds(2))
    then have lo: "L + 2 \<le> c" by arith
    from cb(4) have "even (c - L)" by simp
    then obtain a where a: "c - L = 2 * a" by (elim evenE)
    have e1: "seq ! nat (a - 1) = seq ! nat (j - 1 - (a - 1))"
      using a jc by (intro pal_atD[OF Jd2]) arith+
    have e2: "seq ! nat (j - a) = seq ! nat (c - 1 - (j - a))"
      using a jc by (intro pal_atD[OF CP]) arith+
    have e3: "seq ! nat (c - 1 - (j - a)) = seq ! nat (?j' - 1 - (c - 1 - (j - a)))"
      using a jc by (intro pal_atD[OF A]) arith+
    have "j - 1 - (a - 1) = j - a" "?j' - 1 - (c - 1 - (j - a)) = c - a" by arith+
    with e1 e2 e3 have "seq ! nat (a - 1) = seq ! nat (c - a)" by (simp only:)
    moreover have "(c - L) div 2 - 1 = a - 1" "(c + L) div 2 = c - a" using a by auto
    ultimately have "seq ! nat ((c - L) div 2 - 1) = seq ! nat ((c + L) div 2)" by (simp only:)
    with lo hi have "pal_at seq c (L + 2)" by (intro pal_at_extend[OF CP]) simp_all
    with CN show False ..
  qed
  with R show ?thesis by (simp add: maxpal_def)
qed

subsection \<open>The naive function computes the maximal lengths\<close>

lemma py_index_in_range:
  "0 \<le> i \<Longrightarrow> i < int (length xs) \<Longrightarrow> py_index xs i = Inr (xs ! nat i)"
  by (simp add: py_index_def)

lemma correct_prefixD:
  "correct_prefix seq bl \<Longrightarrow> 0 \<le> j \<Longrightarrow> j < int (length bl) \<Longrightarrow> maxpal seq j (bl ! nat j)"
  unfolding correct_prefix_def by (metis int_nat_eq nat_less_iff)

lemma correct_prefix_snoc:
  assumes "correct_prefix seq bl" "maxpal seq (int (length bl)) v"
  shows "correct_prefix seq (bl @ [v])"
  unfolding correct_prefix_def
proof (intro allI impI)
  fix k assume "k < length (bl @ [v])"
  then consider "k < length bl" | "k = length bl" by fastforce
  then show "maxpal seq (int k) ((bl @ [v]) ! k)"
  proof cases
    case 1
    with assms(1) show ?thesis by (simp add: correct_prefix_def nth_append)
  next
    case 2
    with assms(2) show ?thesis by simp
  qed
qed

lemma correct_prefix_Nil: "correct_prefix seq []"
  by (simp add: correct_prefix_def)

lemma is_profile_unique:
  assumes "is_profile seq a" "is_profile seq b"
  shows "a = b"
proof (rule nth_equalityI)
  from assms show "length a = length b" by (simp add: is_profile_def)
  fix k assume "k < length a"
  with assms have "maxpal seq (int k) (a ! k)" "maxpal seq (int k) (b ! k)"
    by (simp_all add: is_profile_def correct_prefix_def)
  then show "a ! k = b ! k" by (rule maxpal_unique)
qed

lemma pal_at_not_left: "L + 2 > k \<Longrightarrow> \<not> pal_at seq k (L + 2)"
  using pal_at_bounds(2)[of seq k "L + 2"] by auto

lemma pal_at_not_right: "k + L + 2 > 2 * int (length seq) \<Longrightarrow> \<not> pal_at seq k (L + 2)"
  using pal_at_bounds(3)[of seq k "L + 2"] by auto

lemma pal_at_trivial:
  assumes "0 \<le> k" "k \<le> 2 * int (length seq)"
  shows "pal_at seq k (k mod 2)"
proof (rule pal_atI)
  show "0 \<le> k mod 2" by simp
  show "k mod 2 \<le> k" using assms(1) by presburger
  show "k + k mod 2 \<le> 2 * int (length seq)" using assms(2) by presburger
  show "even (k + k mod 2)" by presburger
  fix p assume "k - k mod 2 < 2 * p + 1" "2 * p + 1 < k + k mod 2"
  then have "k - 1 - p = p" by presburger
  then show "seq ! nat p = seq ! nat (k - 1 - p)" by simp
qed

lemma expand_correct:
  "0 \<le> s \<Longrightarrow> e \<le> int (length seq) \<Longrightarrow> pal_at seq (s + e) (e - s) \<Longrightarrow>
   \<exists>s' e'. expand seq s e = Inr (s', e') \<and> s' + e' = s + e \<and> maxpal seq (s + e) (e' - s')"
proof (induction seq s e rule: expand.induct)
  case (1 seq s e)
  note P = \<open>pal_at seq (s + e) (e - s)\<close>
  from pal_at_bounds(1)[OF P] have se: "s \<le> e" by simp
  show ?case
  proof (cases "s > 0 \<and> e < int (length seq)")
    case False
    with "1.prems" have "s = 0 \<or> e = int (length seq)" by arith
    then have "\<not> pal_at seq (s + e) (e - s + 2)"
    proof
      assume "s = 0" then show ?thesis by (intro pal_at_not_left) simp
    next
      assume "e = int (length seq)" then show ?thesis by (intro pal_at_not_right) simp
    qed
    with P have "maxpal seq (s + e) (e - s)" by (simp add: maxpal_def)
    moreover from False have "expand seq s e = Inr (s, e)" by (subst expand.simps) auto
    ultimately show ?thesis by simp
  next
    case True
    with se have ia: "py_index seq (s - 1) = Inr (seq ! nat (s - 1))"
      and ib: "py_index seq e = Inr (seq ! nat e)"
      by (simp_all add: py_index_in_range)
    have d1: "(s + e - (e - s)) div 2 - 1 = s - 1" and d2: "(s + e + (e - s)) div 2 = e" by simp_all
    show ?thesis
    proof (cases "seq ! nat (s - 1) = seq ! nat e")
      case eq: True
      have "pal_at seq (s + e) (e - s + 2)"
        using True eq by (intro pal_at_extend[OF P]) (simp_all only: d1 d2, simp_all)
      then have P': "pal_at seq (s - 1 + (e + 1)) (e + 1 - (s - 1))" by (simp add: algebra_simps)
      have "\<exists>s' e'. expand seq (s - 1) (e + 1) = Inr (s', e') \<and> s' + e' = s - 1 + (e + 1)
              \<and> maxpal seq (s - 1 + (e + 1)) (e' - s')"
        using True by (intro "1.IH"[OF True ia ib eq _ _ P']) simp_all
      moreover have "expand seq s e = expand seq (s - 1) (e + 1)"
        using True ia ib eq by (subst expand.simps) simp
      ultimately show ?thesis by simp
    next
      case neq: False
      have "\<not> pal_at seq (s + e) (e - s + 2)"
      proof
        assume A: "pal_at seq (s + e) (e - s + 2)"
        from se have "0 \<le> e - s" by simp
        from pal_at_extendD[OF A this]
        have "seq ! nat ((s + e - (e - s)) div 2 - 1) = seq ! nat ((s + e + (e - s)) div 2)"
          by blast
        then have "seq ! nat (s - 1) = seq ! nat e" unfolding d1 d2 .
        with neq show False ..
      qed
      with P have "maxpal seq (s + e) (e - s)" by (simp add: maxpal_def)
      moreover have "expand seq s e = Inr (s, e)"
        using True ia ib neq by (subst expand.simps) simp
      ultimately show ?thesis by simp
    qed
  qed
qed

lemma naive_entry_correct:
  assumes "0 \<le> k" "k \<le> 2 * int (length seq)"
  shows "\<exists>v. naive_entry seq k = Inr v \<and> maxpal seq k v"
proof -
  let ?s = "k div 2" and ?e = "k div 2 + k mod 2"
  have k: "?s + ?e = k" by presburger
  have L: "?e - ?s = k mod 2" by simp
  have P: "pal_at seq (?s + ?e) (?e - ?s)"
    unfolding k L by (rule pal_at_trivial[OF assms])
  have "0 \<le> ?s" using assms(1) by simp
  moreover have "?e \<le> int (length seq)" using assms(2) by presburger
  ultimately obtain s' e' where "expand seq ?s ?e = Inr (s', e')" "maxpal seq (?s + ?e) (e' - s')"
    using expand_correct[OF _ _ P] by blast
  then show ?thesis unfolding k by (simp add: naive_entry_def Let_def)
qed

lemma naive_loop_correct:
  assumes "\<forall>k \<in> set ks. 0 \<le> k \<and> k \<le> 2 * int (length seq)"
  shows "\<exists>vs. naive_loop seq ks bl = Inr (bl @ vs) \<and> length vs = length ks \<and>
              (\<forall>t < length ks. maxpal seq (ks ! t) (vs ! t))"
  using assms
proof (induction ks arbitrary: bl)
  case Nil
  then show ?case by simp
next
  case (Cons k ks)
  then obtain v where v: "naive_entry seq k = Inr v" "maxpal seq k v"
    using naive_entry_correct[of k seq] by auto
  from Cons obtain vs where vs: "naive_loop seq ks (bl @ [v]) = Inr ((bl @ [v]) @ vs)"
    "length vs = length ks" "\<forall>t < length ks. maxpal seq (ks ! t) (vs ! t)"
    by (metis list.set_intros(2))
  have "\<forall>t < length (k # ks). maxpal seq ((k # ks) ! t) ((v # vs) ! t)"
    using v(2) vs(3) by (auto simp: nth_Cons split: nat.splits)
  with v(1) vs(1,2) show ?case by (intro exI[of _ "v # vs"]) simp
qed

lemma naive_correct: "\<exists>bl. naive_longest_palindromes seq = Inr bl \<and> is_profile seq bl"
proof -
  let ?ks = "map int [0 ..< 2 * length seq + 1]"
  have "\<forall>k \<in> set ?ks. 0 \<le> k \<and> k \<le> 2 * int (length seq)" by auto
  from naive_loop_correct[OF this, of "[]"] obtain vs where
    vs: "naive_loop seq ?ks [] = Inr vs" "length vs = length ?ks"
        "\<forall>t < length ?ks. maxpal seq (?ks ! t) (vs ! t)" by auto
  have "nat (2 * int (length seq) + 1) = 2 * length seq + 1" by simp
  then have "naive_longest_palindromes seq = Inr vs"
    using vs(1) by (simp add: naive_longest_palindromes_def Let_def)
  moreover have "is_profile seq vs"
    unfolding is_profile_def correct_prefix_def
  proof (intro conjI allI impI)
    show "length vs = 2 * length seq + 1" using vs(2) by simp
    fix k assume "k < length vs"
    with vs(2,3) show "maxpal seq (int k) (vs ! k)"
      by (metis add.left_neutral length_map nth_map nth_upt length_upt diff_zero)
  qed
  ultimately show ?thesis by blast
qed

subsection \<open>The inner and the final loop copy correct entries\<close>

lemma mirror_min:
  assumes C: "maxpal seq c L" and J: "maxpal seq j M"
    and jc: "c - L \<le> j" "j < c"
    and cases: "M \<noteq> j - (c - L) \<or> c + L = 2 * int (length seq)"
    and room: "M \<le> j - (c - L) \<or> c + L \<le> 2 * int (length seq)"
  shows "maxpal seq (2 * c - j) (min (j - (c - L)) M)"
proof (cases "M < j - (c - L)")
  case True
  then have "min (j - (c - L)) M = M" by simp
  moreover have "maxpal seq (2 * c - j) M"
    using jc True by (intro mirror_short[OF maxpal_pal[OF C] J]) simp_all
  ultimately show ?thesis by simp
next
  case False
  then have "min (j - (c - L)) M = j - (c - L)" by simp
  moreover have "maxpal seq (2 * c - j) (j - (c - L))"
    using jc False cases by (intro mirror_long[OF C J]) auto
  ultimately show ?thesis by simp
qed

lemma inner_loop_correct:
  assumes C: "maxpal seq c L"
  shows "correct_prefix seq bl \<Longrightarrow> int (length bl) = 2 * c - j \<Longrightarrow> e = c - 1 - L \<Longrightarrow>
         e \<le> j \<Longrightarrow> j < c \<Longrightarrow>
         \<exists>od bl'. inner_loop j e bl = Inr (od, bl') \<and> correct_prefix seq bl' \<and>
           (case od of
              Some d \<Rightarrow> 0 \<le> d \<and> d < L \<and> int (length bl') = c + L - d \<and> pal_at seq (c + L - d) d
            | None \<Rightarrow> int (length bl') = c + L + 1)"
proof (induction j e bl rule: inner_loop.induct)
  case (1 j e bl)
  note CP = maxpal_pal[OF C]
  note cb = pal_at_bounds[OF CP]
  show ?case
  proof (cases "j > e")
    case False
    with "1.prems" have "j = e" by simp
    with "1.prems" have "int (length bl) = c + L + 1" by simp
    moreover from False have "inner_loop j e bl = Inr (None, bl)"
      by (subst inner_loop.simps) simp
    ultimately show ?thesis using "1.prems"(1) by simp
  next
    case True
    let ?d = "j - e - 1"
    let ?M = "bl ! nat j"
    have d: "?d = j - (c - L)" using "1.prems"(3) by simp
    have j0: "0 \<le> j" "j < int (length bl)" using True "1.prems" cb by simp_all
    then have idx: "py_index bl j = Inr ?M" by (rule py_index_in_range)
    have J: "maxpal seq j ?M" using "1.prems"(1) j0 by (rule correct_prefixD)
    have jc: "c - L \<le> j" using True "1.prems"(3) by simp
    show ?thesis
    proof (cases "?M = ?d")
      case eq: True
      have run: "inner_loop j e bl = Inr (Some ?d, bl)"
        using True idx eq by (subst inner_loop.simps) (simp add: Let_def)
      have "pal_at seq (2 * c - j) ?M"
        using jc "1.prems"(5) eq d by (intro pal_at_reflect[OF CP maxpal_pal[OF J]]) simp_all
      moreover have "2 * c - j = c + L - ?d" using d by simp
      ultimately have "pal_at seq (c + L - ?d) ?d" using eq by simp
      moreover have "0 \<le> ?d" "?d < L" using True "1.prems"(3,5) by simp_all
      moreover have "int (length bl) = c + L - ?d" using "1.prems"(2) d by simp
      ultimately show ?thesis using run "1.prems"(1) by simp
    next
      case neq: False
      let ?bl = "bl @ [min ?d ?M]"
      have run: "inner_loop j e bl = inner_loop (j - 1) e ?bl"
        using True idx neq by (subst inner_loop.simps) (simp add: Let_def)
      have "maxpal seq (2 * c - j) (min (j - (c - L)) ?M)"
        using jc "1.prems"(5) neq d cb by (intro mirror_min[OF C J]) simp_all
      then have "maxpal seq (int (length bl)) (min ?d ?M)"
        by (simp only: "1.prems"(2) d)
      with "1.prems"(1) have cp: "correct_prefix seq ?bl" by (rule correct_prefix_snoc)
      have len: "int (length ?bl) = 2 * c - (j - 1)" using "1.prems"(2) by simp
      have "\<exists>od bl'. inner_loop (j - 1) e ?bl = Inr (od, bl') \<and> correct_prefix seq bl' \<and>
           (case od of
              Some d \<Rightarrow> 0 \<le> d \<and> d < L \<and> int (length bl') = c + L - d \<and> pal_at seq (c + L - d) d
            | None \<Rightarrow> int (length bl') = c + L + 1)"
        using True "1.prems"(3,5) neq
        by (intro "1.IH"[OF True refl idx _ cp len]) simp_all
      with run show ?thesis by simp
    qed
  qed
qed

lemma final_loop_correct:
  assumes C: "maxpal seq c L" and full: "c + L = 2 * int (length seq)"
  shows "correct_prefix seq bl \<Longrightarrow> int (length bl) = 2 * c - j \<Longrightarrow> e = c - 1 - L \<Longrightarrow>
         e \<le> j \<Longrightarrow> j < c \<Longrightarrow>
         \<exists>bl'. final_loop j e bl = Inr bl' \<and> correct_prefix seq bl' \<and>
               int (length bl') = c + L + 1"
proof (induction j e bl rule: final_loop.induct)
  case (1 j e bl)
  note CP = maxpal_pal[OF C]
  note cb = pal_at_bounds[OF CP]
  show ?case
  proof (cases "j > e")
    case False
    with "1.prems" have "j = e" by simp
    with "1.prems" have "int (length bl) = c + L + 1" by simp
    moreover from False have "final_loop j e bl = Inr bl"
      by (subst final_loop.simps) simp
    ultimately show ?thesis using "1.prems"(1) by simp
  next
    case True
    let ?d = "j - e - 1"
    let ?M = "bl ! nat j"
    let ?bl = "bl @ [min ?d ?M]"
    have d: "?d = j - (c - L)" using "1.prems"(3) by simp
    have j0: "0 \<le> j" "j < int (length bl)" using True "1.prems" cb by simp_all
    then have idx: "py_index bl j = Inr ?M" by (rule py_index_in_range)
    have J: "maxpal seq j ?M" using "1.prems"(1) j0 by (rule correct_prefixD)
    have jc: "c - L \<le> j" using True "1.prems"(3) by simp
    have run: "final_loop j e bl = final_loop (j - 1) e ?bl"
      using True idx by (subst final_loop.simps) (simp add: Let_def)
    have "maxpal seq (2 * c - j) (min (j - (c - L)) ?M)"
      using jc "1.prems"(5) full by (intro mirror_min[OF C J]) simp_all
    then have "maxpal seq (int (length bl)) (min ?d ?M)"
      by (simp only: "1.prems"(2) d)
    with "1.prems"(1) have cp: "correct_prefix seq ?bl" by (rule correct_prefix_snoc)
    have len: "int (length ?bl) = 2 * c - (j - 1)" using "1.prems"(2) by simp
    have "\<exists>bl'. final_loop (j - 1) e ?bl = Inr bl' \<and> correct_prefix seq bl' \<and>
               int (length bl') = c + L + 1"
      using True "1.prems"(3,5)
      by (intro "1.IH"[OF True refl idx cp len]) simp_all
    with run show ?thesis by simp
  qed
qed

subsection \<open>The main loop keeps its invariant\<close>

lemma loop_inv_init: "loop_inv seq (0, 0, [])"
proof -
  have "pal_at seq 0 0" using pal_at_trivial[of 0 seq] by simp
  then show ?thesis by (simp add: loop_inv_def correct_prefix_Nil)
qed

lemma can_extend_run:
  assumes "pal_at seq (2 * i - p) p" "i < int (length seq)"
  shows "can_extend seq i p = Inr (i > p \<and> seq ! nat (i - p - 1) = seq ! nat i)"
proof (cases "i > p")
  case False
  then show ?thesis by (simp add: can_extend_def)
next
  case True
  note b = pal_at_bounds[OF assms(1)]
  from True b assms(2) have "py_index seq (i - p - 1) = Inr (seq ! nat (i - p - 1))"
    by (intro py_index_in_range) simp_all
  moreover from True b assms(2) have "py_index seq i = Inr (seq ! nat i)"
    by (intro py_index_in_range) simp_all
  ultimately show ?thesis using True by (simp add: can_extend_def)
qed

lemma emit_maxpal:
  assumes P: "pal_at seq (2 * i - p) p"
    and no: "\<not> (i > p \<and> i < int (length seq) \<and> seq ! nat (i - p - 1) = seq ! nat i)"
  shows "maxpal seq (2 * i - p) p"
proof -
  note b = pal_at_bounds[OF P]
  have d1: "(2 * i - p - p) div 2 - 1 = i - p - 1" and d2: "(2 * i - p + p) div 2 = i"
    by simp_all
  have "\<not> pal_at seq (2 * i - p) (p + 2)"
  proof
    assume A: "pal_at seq (2 * i - p) (p + 2)"
    from pal_at_extendD[OF A b(1)]
    have "p + 2 \<le> 2 * i - p" "2 * i - p + p + 2 \<le> 2 * int (length seq)"
      "seq ! nat ((2 * i - p - p) div 2 - 1) = seq ! nat ((2 * i - p + p) div 2)"
      by blast+
    then have "i > p" "i < int (length seq)" "seq ! nat (i - p - 1) = seq ! nat i"
      unfolding d1 d2 by simp_all
    with no show False by simp
  qed
  with P show ?thesis by (simp add: maxpal_def)
qed

lemma main_step_correct:
  assumes inv: "loop_inv seq (i, p, bl)" and lt: "i < int (length seq)"
  shows "\<exists>st'. main_step seq (i, p, bl) = Inr st' \<and> loop_inv seq st'"
proof -
  from inv have P: "pal_at seq (2 * i - p) p" and len: "int (length bl) = 2 * i - p"
    and cp: "correct_prefix seq bl"
    by (simp_all add: loop_inv_def)
  note b = pal_at_bounds[OF P]
  note ce = can_extend_run[OF P lt]
  show ?thesis
  proof (cases "i > p \<and> seq ! nat (i - p - 1) = seq ! nat i")
    case True
    have d1: "(2 * i - p - p) div 2 - 1 = i - p - 1" and d2: "(2 * i - p + p) div 2 = i"
      by simp_all
    have "pal_at seq (2 * i - p) (p + 2)"
      using True lt by (intro pal_at_extend[OF P]) (simp_all only: d1 d2, simp_all)
    moreover have "2 * (i + 1) - (p + 2) = 2 * i - p" by simp
    ultimately have "loop_inv seq (i + 1, p + 2, bl)"
      using lt len cp by (simp add: loop_inv_def)
    moreover have "main_step seq (i, p, bl) = Inr (i + 1, p + 2, bl)"
      using ce True by (simp add: main_step_def)
    ultimately show ?thesis by simp
  next
    case False
    let ?c = "2 * i - p"
    let ?bl = "bl @ [p]"
    let ?start = "int (length ?bl) - 2"
    let ?end = "?start - p"
    from False have C: "maxpal seq ?c p" by (intro emit_maxpal[OF P]) simp
    then have "maxpal seq (int (length bl)) p" by (simp only: len)
    with cp have cp1: "correct_prefix seq ?bl" by (rule correct_prefix_snoc)
    have "\<exists>od bl'. inner_loop ?start ?end ?bl = Inr (od, bl') \<and> correct_prefix seq bl' \<and>
           (case od of
              Some d \<Rightarrow> 0 \<le> d \<and> d < p \<and> int (length bl') = ?c + p - d \<and> pal_at seq (?c + p - d) d
            | None \<Rightarrow> int (length bl') = ?c + p + 1)"
      using len b by (intro inner_loop_correct[OF C cp1]) simp_all
    then obtain od bl' where run: "inner_loop ?start ?end ?bl = Inr (od, bl')"
      and cp': "correct_prefix seq bl'"
      and od: "case od of
              Some d \<Rightarrow> 0 \<le> d \<and> d < p \<and> int (length bl') = ?c + p - d \<and> pal_at seq (?c + p - d) d
            | None \<Rightarrow> int (length bl') = ?c + p + 1"
      by blast
    show ?thesis
    proof (cases od)
      case None
      have "pal_at seq (2 * i + 1) ((2 * i + 1) mod 2)"
        using b lt by (intro pal_at_trivial) simp_all
      moreover have "(2 * i + 1) mod 2 = 1" by presburger
      moreover have "2 * (i + 1) - 1 = 2 * i + 1" by simp
      ultimately have "pal_at seq (2 * (i + 1) - 1) 1" by (simp only:)
      with od None cp' lt have "loop_inv seq (i + 1, 1, bl')" by (simp add: loop_inv_def)
      moreover have "main_step seq (i, p, bl) = Inr (i + 1, 1, bl')"
        using ce False run None by (simp add: main_step_def Let_def)
      ultimately show ?thesis by simp
    next
      case (Some d)
      with od have "pal_at seq (2 * i - d) d" "int (length bl') = 2 * i - d" by simp_all
      with cp' lt have "loop_inv seq (i, d, bl')" by (simp add: loop_inv_def)
      moreover have "main_step seq (i, p, bl) = Inr (i, d, bl')"
        using ce False run Some by (simp add: main_step_def Let_def)
      ultimately show ?thesis by simp
    qed
  qed
qed

lemma main_loop_correct:
  "loop_inv seq st \<Longrightarrow>
   \<exists>p bl. main_loop seq st = Inr (int (length seq), p, bl) \<and> loop_inv seq (int (length seq), p, bl)"
proof (induction seq st rule: main_loop.induct)
  case (1 seq i p bl)
  show ?case
  proof (cases "i < int (length seq)")
    case False
    with "1.prems" have "i = int (length seq)" by (simp add: loop_inv_def)
    moreover from False have "main_loop seq (i, p, bl) = Inr (i, p, bl)"
      by (subst main_loop.simps) simp
    ultimately show ?thesis using "1.prems" by simp
  next
    case True
    from main_step_correct[OF "1.prems" True] obtain st'
      where st': "main_step seq (i, p, bl) = Inr st'" "loop_inv seq st'" by blast
    from True st'(1) have "main_loop seq (i, p, bl) = main_loop seq st'"
      by (subst main_loop.simps) simp
    with "1.IH"[OF True st'] show ?thesis by simp
  qed
qed

lemma fast_correct: "\<exists>bl. fast_longest_palindromes seq = Inr bl \<and> is_profile seq bl"
proof -
  let ?n = "int (length seq)"
  from main_loop_correct[OF loop_inv_init] obtain p bl
    where run: "main_loop seq (0, 0, []) = Inr (?n, p, bl)" and inv: "loop_inv seq (?n, p, bl)"
    by blast
  from inv have P: "pal_at seq (2 * ?n - p) p" and len: "int (length bl) = 2 * ?n - p"
    and cp: "correct_prefix seq bl"
    by (simp_all add: loop_inv_def)
  note b = pal_at_bounds[OF P]
  let ?c = "2 * ?n - p"
  let ?bl = "bl @ [p]"
  let ?size = "int (length ?bl)"
  let ?start = "?size - 2"
  let ?end = "?start - (2 * ?n + 1 - ?size)"
  have C: "maxpal seq ?c p" by (intro emit_maxpal[OF P]) simp
  then have "maxpal seq (int (length bl)) p" by (simp only: len)
  with cp have cp1: "correct_prefix seq ?bl" by (rule correct_prefix_snoc)
  have "\<exists>bl'. final_loop ?start ?end ?bl = Inr bl' \<and> correct_prefix seq bl' \<and>
               int (length bl') = ?c + p + 1"
    using len b by (intro final_loop_correct[OF C _ cp1]) simp_all
  then obtain bl' where fin: "final_loop ?start ?end ?bl = Inr bl'"
    and cp': "correct_prefix seq bl'" and len': "int (length bl') = ?c + p + 1"
    by blast
  from len' have "length bl' = 2 * length seq + 1" by simp
  with cp' have "is_profile seq bl'" by (simp add: is_profile_def)
  moreover have "fast_longest_palindromes seq = Inr bl'"
    by (simp only: fast_longest_palindromes_def Let_def run sum.case prod.case fin)
  ultimately show ?thesis by blast
qed

subsection \<open>Slices\<close>

lemma py_slice_in_range:
  assumes "0 \<le> a" "a \<le> b" "b \<le> int (length xs)"
  shows "py_slice xs a b = take (nat (b - a)) (drop (nat a) xs)"
proof -
  from assms have "py_clamp xs a = nat a" "py_clamp xs b = nat b"
    by (simp_all add: py_clamp_def)
  moreover from assms have "nat b - nat a = nat (b - a)" by simp
  ultimately show ?thesis by (simp add: py_slice_def)
qed

lemma py_slice_length:
  assumes "0 \<le> a" "a \<le> b" "b \<le> int (length xs)"
  shows "length (py_slice xs a b) = nat (b - a)"
  using assms by (simp add: py_slice_in_range)

lemma py_slice_nth:
  assumes "0 \<le> a" "a \<le> b" "b \<le> int (length xs)" "t < nat (b - a)"
  shows "py_slice xs a b ! t = xs ! (nat a + t)"
  using assms by (simp add: py_slice_in_range)

lemma pal_at_slice:
  assumes a: "0 \<le> a" and L: "0 \<le> L" and n: "a + L \<le> int (length seq)"
  shows "pal_at seq (2 * a + L) L \<longleftrightarrow> py_slice seq a (a + L) = rev (py_slice seq a (a + L))"
proof
  let ?s = "py_slice seq a (a + L)"
  have len: "length ?s = nat L" using py_slice_length[of a "a + L" seq] a L n by simp
  have nth: "?s ! t = seq ! (nat a + t)" if "t < nat L" for t
    using py_slice_nth[of a "a + L" seq t] a L n that by simp
  {
    assume P: "pal_at seq (2 * a + L) L"
    show "?s = rev ?s"
    proof (rule nth_equalityI)
      show "length ?s = length (rev ?s)" by simp
      fix t assume "t < length ?s"
      with len have t: "t < nat L" by simp
      then have t': "nat L - Suc t < nat L" by simp
      have "seq ! nat (a + int t) = seq ! nat (2 * a + L - 1 - (a + int t))"
        using t a by (intro pal_atD[OF P]) simp_all
      moreover have "nat (a + int t) = nat a + t" using a by simp
      moreover have "nat (2 * a + L - 1 - (a + int t)) = nat a + (nat L - Suc t)"
        using a t by simp
      ultimately have "seq ! (nat a + t) = seq ! (nat a + (nat L - Suc t))" by (simp only:)
      then have "?s ! t = ?s ! (nat L - Suc t)" by (simp only: nth[OF t] nth[OF t'])
      also have "\<dots> = rev ?s ! t" using t len by (simp add: rev_nth)
      finally show "?s ! t = rev ?s ! t" .
    qed
  }
  {
    assume R: "?s = rev ?s"
    show "pal_at seq (2 * a + L) L"
    proof (rule pal_atI)
      show "0 \<le> L" by (rule L)
      show "L \<le> 2 * a + L" using a by simp
      show "2 * a + L + L \<le> 2 * int (length seq)" using n by simp
      show "even (2 * a + L + L)" by simp
      fix p assume r: "2 * a + L - L < 2 * p + 1" "2 * p + 1 < 2 * a + L + L"
      define t where "t = nat (p - a)"
      from r have pa: "a \<le> p" "p < a + L" by simp_all
      then have t: "t < nat L" and p: "nat p = nat a + t" using a by (simp_all add: t_def)
      from t have t': "nat L - Suc t < nat L" by simp
      have q: "nat (2 * a + L - 1 - p) = nat a + (nat L - Suc t)"
        using pa a by (simp add: t_def)
      have "?s ! t = rev ?s ! t" by (rule arg_cong[where f = "\<lambda>xs. xs ! t", OF R])
      also have "\<dots> = ?s ! (nat L - Suc t)" using t len by (simp add: rev_nth)
      finally have "seq ! (nat a + t) = seq ! (nat a + (nat L - Suc t))"
        by (simp only: nth[OF t] nth[OF t'])
      then show "seq ! nat p = seq ! nat (2 * a + L - 1 - p)" by (simp only: p q)
    qed
  }
qed

lemma centre_start:
  fixes k L :: int
  assumes "even (k + L)"
  shows "2 * (k div 2 - L div 2) + L = k"
  using assms by presburger

subsection \<open>Reversed and constant sequences\<close>

lemma rev_nth_int:
  assumes "0 \<le> p" "p < int (length xs)"
  shows "rev xs ! nat p = xs ! nat (int (length xs) - 1 - p)"
proof -
  from assms have "nat p < length xs" by simp
  then have "rev xs ! nat p = xs ! (length xs - Suc (nat p))" by (rule rev_nth)
  moreover from assms have "nat (int (length xs) - 1 - p) = length xs - Suc (nat p)" by arith
  ultimately show ?thesis by simp
qed

lemma pal_at_rev:
  assumes P: "pal_at seq k L"
  shows "pal_at (rev seq) (2 * int (length seq) - k) L"
proof (rule pal_atI)
  let ?n = "int (length seq)"
  note b = pal_at_bounds[OF P]
  show "0 \<le> L" by (rule b)
  show "L \<le> 2 * ?n - k" using b by simp
  show "2 * ?n - k + L \<le> 2 * int (length (rev seq))" using b by simp
  show "even (2 * ?n - k + L)" using b by simp
  fix p assume r: "2 * ?n - k - L < 2 * p + 1" "2 * p + 1 < 2 * ?n - k + L"
  let ?q = "2 * ?n - k - 1 - p"
  from r b have p: "0 \<le> p" "p < ?n" and q: "0 \<le> ?q" "?q < ?n" by simp_all
  have 1: "rev seq ! nat p = seq ! nat (?n - 1 - p)" using p by (rule rev_nth_int)
  have 2: "rev seq ! nat ?q = seq ! nat (?n - 1 - ?q)" using q by (rule rev_nth_int)
  have "seq ! nat (?n - 1 - ?q) = seq ! nat (k - 1 - (?n - 1 - ?q))"
    using r by (intro pal_atD[OF P]) simp_all
  moreover have "k - 1 - (?n - 1 - ?q) = ?n - 1 - p" by simp
  ultimately show "rev seq ! nat p = rev seq ! nat ?q" using 1 2 by (simp only:)
qed

lemma maxpal_rev:
  assumes M: "maxpal seq k L"
  shows "maxpal (rev seq) (2 * int (length seq) - k) L"
proof -
  have "pal_at (rev seq) (2 * int (length seq) - k) L" by (rule pal_at_rev[OF maxpal_pal[OF M]])
  moreover have "\<not> pal_at (rev seq) (2 * int (length seq) - k) (L + 2)"
  proof
    assume "pal_at (rev seq) (2 * int (length seq) - k) (L + 2)"
    from pal_at_rev[OF this] have "pal_at seq k (L + 2)" by simp
    with M show False by (simp add: maxpal_def)
  qed
  ultimately show ?thesis by (simp add: maxpal_def)
qed

lemma is_profile_rev:
  assumes "is_profile seq bl"
  shows "is_profile (rev seq) (rev bl)"
  unfolding is_profile_def correct_prefix_def
proof (intro conjI allI impI)
  from assms have len: "length bl = 2 * length seq + 1" by (simp add: is_profile_def)
  then show "length (rev bl) = 2 * length (rev seq) + 1" by simp
  fix k assume "k < length (rev bl)"
  then have k: "k < length bl" by simp
  let ?k' = "length bl - Suc k"
  from k have "?k' < length bl" by simp
  with assms have "maxpal seq (int ?k') (bl ! ?k')" by (simp add: is_profile_def correct_prefix_def)
  from maxpal_rev[OF this] have "maxpal (rev seq) (2 * int (length seq) - int ?k') (bl ! ?k')" .
  moreover have "2 * int (length seq) - int ?k' = int k" using k len by simp
  moreover have "rev bl ! k = bl ! ?k'" using k by (rule rev_nth)
  ultimately show "maxpal (rev seq) (int k) (rev bl ! k)" by (simp only:)
qed

lemma pal_at_replicate: "pal_at (replicate m x) (int m) (int m)"
proof (rule pal_atI)
  fix p assume "int m - int m < 2 * p + 1" "2 * p + 1 < int m + int m"
  then have "nat p < m" "nat (int m - 1 - p) < m" by simp_all
  then show "replicate m x ! nat p = replicate m x ! nat (int m - 1 - p)" by simp
qed simp_all

lemma is_profile_entry:
  assumes "is_profile seq bl" "k < length bl"
  shows "maxpal seq (int k) (bl ! k)"
  using assms by (simp add: is_profile_def correct_prefix_def)

lemma profile_entry_le:
  assumes "is_profile seq bl" "v \<in> set bl"
  shows "v \<le> int (length seq)"
proof -
  from assms(2) obtain k where k: "k < length bl" "bl ! k = v" by (auto simp: in_set_conv_nth)
  note b = pal_at_bounds[OF maxpal_pal[OF is_profile_entry[OF assms(1) k(1)]]]
  from b(2,3) k(2) show ?thesis by simp
qed

lemma py_max_eq:
  assumes "m \<in> set bl" "\<forall>v \<in> set bl. v \<le> m"
  shows "py_max bl = Inr m"
proof (cases bl)
  case Nil
  with assms show ?thesis by simp
next
  case (Cons y ys)
  have "fold max ys y = Max (set (y # ys))" by (rule Max.set_eq_fold[symmetric])
  also have "\<dots> = m" using assms Cons by (intro Max_eqI) auto
  finally show ?thesis using Cons by (simp add: py_max_def)
qed

lemma replicate_profile_max:
  assumes "is_profile (replicate m x) bl"
  shows "py_max bl = Inr (int m)"
proof (rule py_max_eq)
  from assms have len: "length bl = 2 * m + 1" by (simp add: is_profile_def)
  then have m: "m < length bl" by simp
  note M = is_profile_entry[OF assms m]
  from maxpal_greatest[OF M pal_at_replicate] have "int m \<le> bl ! m" .
  moreover from pal_at_bounds(2)[OF maxpal_pal[OF M]] have "bl ! m \<le> int m" .
  ultimately have "bl ! m = int m" by simp
  with m show "int m \<in> set bl" by (metis nth_mem)
  show "\<forall>v \<in> set bl. v \<le> int m" using profile_entry_le[OF assms] by auto
qed

subsection \<open>The states the loops go through\<close>

lemma main_iter_inv:
  "loop_inv seq st \<Longrightarrow> main_iter k seq st = Inr st' \<Longrightarrow> loop_inv seq st'"
proof (induction k arbitrary: st)
  case 0
  then show ?case by simp
next
  case (Suc k)
  obtain i p bl where st: "st = (i, p, bl)" by (cases st)
  show ?case
  proof (cases "i < int (length seq)")
    case False
    with Suc.prems st show ?thesis by simp
  next
    case True
    from main_step_correct[OF Suc.prems(1)[unfolded st] True] obtain st2
      where st2: "main_step seq (i, p, bl) = Inr st2" "loop_inv seq st2" by blast
    with Suc.prems(2) st True have "main_iter k seq st2 = Inr st'" by simp
    with st2(2) show ?thesis by (rule Suc.IH)
  qed
qed

lemma main_iter_reaches: "\<exists>k. main_iter k seq st = main_loop seq st"
proof (induction seq st rule: main_loop.induct)
  case (1 seq i p bl)
  show ?case
  proof (cases "i < int (length seq)")
    case False
    then have "main_loop seq (i, p, bl) = Inr (i, p, bl)" by (subst main_loop.simps) simp
    then have "main_iter 0 seq (i, p, bl) = main_loop seq (i, p, bl)" by simp
    then show ?thesis ..
  next
    case True
    show ?thesis
    proof (cases "main_step seq (i, p, bl)")
      case (Inl e)
      with True have "main_loop seq (i, p, bl) = Inl e" by (subst main_loop.simps) simp
      with True Inl have "main_iter (Suc 0) seq (i, p, bl) = main_loop seq (i, p, bl)" by simp
      then show ?thesis ..
    next
      case (Inr st')
      from "1.IH"[OF True Inr] obtain k where k: "main_iter k seq st' = main_loop seq st'" ..
      from True Inr have "main_loop seq (i, p, bl) = main_loop seq st'"
        by (subst main_loop.simps) simp
      with True Inr k have "main_iter (Suc k) seq (i, p, bl) = main_loop seq (i, p, bl)" by simp
      then show ?thesis ..
    qed
  qed
qed

lemma inner_iter_shape:
  "inner_iter k j e bl = Some (j', bl') \<Longrightarrow> j' = j - int k \<and> length bl' = length bl + k"
proof (induction k arbitrary: j bl)
  case 0
  then show ?case by simp
next
  case (Suc k)
  from Suc.prems obtain v where
    "inner_iter k (j - 1) e (bl @ [min (j - e - 1) v]) = Some (j', bl')"
    by (auto simp: Let_def split: if_splits sum.splits)
  from Suc.IH[OF this] show ?case by simp
qed

lemma loop_inv_slice:
  assumes "loop_inv seq (i, p, bl)"
  shows "0 \<le> p" "p \<le> i" "i \<le> int (length seq)"
    "length (py_slice seq (i - p) i) = nat p"
    "py_slice seq (i - p) i = rev (py_slice seq (i - p) i)"
    "int (length bl) = 2 * i - p"
proof -
  from assms have P: "pal_at seq (2 * i - p) p" and n: "i \<le> int (length seq)"
    and len: "int (length bl) = 2 * i - p"
    by (simp_all add: loop_inv_def)
  note b = pal_at_bounds[OF P]
  show "0 \<le> p" by (rule b)
  show "p \<le> i" using b by simp
  show "i \<le> int (length seq)" by (rule n)
  show "int (length bl) = 2 * i - p" by (rule len)
  have a: "0 \<le> i - p" "i - p + p \<le> int (length seq)" using b n by simp_all
  have e: "2 * (i - p) + p = 2 * i - p" "i - p + p = i" by simp_all
  from pal_at_slice[OF a(1) b(1) a(2)] P
  show "py_slice seq (i - p) i = rev (py_slice seq (i - p) i)" by (simp only: e)
  show "length (py_slice seq (i - p) i) = nat p"
    using py_slice_length[of "i - p" i seq] a b by simp
qed

section \<open>The two functions agree\<close>

text \<open>
  C1: for every sequence, over any element type, \<^verbatim>\<open>fast_longest_palindromes\<close> returns
  exactly the list that \<^verbatim>\<open>naive_longest_palindromes\<close> returns (and both do return one).
\<close>

theorem fast_equals_naive:
  "fast_longest_palindromes seq = naive_longest_palindromes seq
   \<and> (\<exists>profile. naive_longest_palindromes seq = Inr profile)"
proof -
  from fast_correct[of seq] obtain a where a: "fast_longest_palindromes seq = Inr a" "is_profile seq a"
    by blast
  from naive_correct[of seq] obtain b where b: "naive_longest_palindromes seq = Inr b" "is_profile seq b"
    by blast
  from a(2) b(2) have "a = b" by (rule is_profile_unique)
  with a(1) b(1) show ?thesis by simp
qed

section \<open>What the entries mean\<close>

text \<open>
  C2: every entry \<open>L\<close> of the result of \<^verbatim>\<open>naive_longest_palindromes\<close>, at index \<open>k\<close>,
  is the length of the longest palindrome around that centre. \<open>L\<close> has the parity of
  \<open>k\<close>, and with \<open>start = k div 2 - L div 2\<close> the slice is centred at \<open>k\<close>
  (\<open>2 * start + L = k\<close>): the slice \<^verbatim>\<open>seq[start : start + L]\<close> lies inside the
  sequence, has \<open>L\<close> elements and equals its own reverse; when one more element fits on
  both sides, the slice with them is not its own reverse; and every palindrome around the
  same centre (a length \<open>M\<close> of the parity of \<open>k\<close>, inside the sequence) is at most \<open>L\<close>
  long. For \<open>k = 2 * i + 1\<close> these are the odd palindromes centred at element \<open>i\<close>, for
  \<open>k = 2 * i\<close> the even ones centred in the gap before it.
\<close>

theorem naive_entries_are_longest_palindromes:
  "\<exists>profile. naive_longest_palindromes seq = Inr profile
     \<and> length profile = 2 * length seq + 1
     \<and> (\<forall>k < length profile.
          let L = profile ! k; start = int k div 2 - L div 2
          in 0 \<le> L \<and> L mod 2 = int k mod 2 \<and> 2 * start + L = int k
             \<and> 0 \<le> start \<and> start + L \<le> int (length seq)
             \<and> palindrome_of seq (int k) L = py_slice seq start (start + L)
             \<and> length (palindrome_of seq (int k) L) = nat L
             \<and> palindrome_of seq (int k) L = rev (palindrome_of seq (int k) L)
             \<and> (0 < start \<and> start + L < int (length seq) \<longrightarrow>
                  py_slice seq (start - 1) (start + L + 1)
                    \<noteq> rev (py_slice seq (start - 1) (start + L + 1)))
             \<and> (\<forall>M. 0 \<le> M \<and> M mod 2 = int k mod 2
                      \<and> 0 \<le> int k div 2 - M div 2
                      \<and> int k div 2 - M div 2 + M \<le> int (length seq)
                      \<and> palindrome_of seq (int k) M = rev (palindrome_of seq (int k) M)
                    \<longrightarrow> M \<le> L))"
proof -
  let ?n = "int (length seq)"
  from naive_correct[of seq] obtain bl where run: "naive_longest_palindromes seq = Inr bl"
    and prof: "is_profile seq bl" by blast
  have "0 \<le> L \<and> L mod 2 = int k mod 2 \<and> 2 * start + L = int k
        \<and> 0 \<le> start \<and> start + L \<le> ?n
        \<and> palindrome_of seq (int k) L = py_slice seq start (start + L)
        \<and> length (palindrome_of seq (int k) L) = nat L
        \<and> palindrome_of seq (int k) L = rev (palindrome_of seq (int k) L)
        \<and> (0 < start \<and> start + L < ?n \<longrightarrow>
             py_slice seq (start - 1) (start + L + 1) \<noteq> rev (py_slice seq (start - 1) (start + L + 1)))
        \<and> (\<forall>M. 0 \<le> M \<and> M mod 2 = int k mod 2
                 \<and> 0 \<le> int k div 2 - M div 2
                 \<and> int k div 2 - M div 2 + M \<le> ?n
                 \<and> palindrome_of seq (int k) M = rev (palindrome_of seq (int k) M)
               \<longrightarrow> M \<le> L)"
    if k: "k < length bl" and L: "L = bl ! k" and start: "start = int k div 2 - L div 2"
    for k L start
  proof -
    have MP: "maxpal seq (int k) L" unfolding L by (rule is_profile_entry[OF prof k])
    note P = maxpal_pal[OF MP]
    note b = pal_at_bounds[OF P]
    have c: "2 * start + L = int k" unfolding start by (rule centre_start[OF b(4)])
    have par: "L mod 2 = int k mod 2" using b(4) by presburger
    have s0: "0 \<le> start" using c b by simp
    have sn: "start + L \<le> ?n" using c b by simp
    have po: "palindrome_of seq (int k) L = py_slice seq start (start + L)"
      by (simp add: palindrome_of_def start Let_def)
    have len: "length (palindrome_of seq (int k) L) = nat L"
      unfolding po using py_slice_length[of start "start + L" seq] s0 sn b(1) by simp
    have pal: "palindrome_of seq (int k) L = rev (palindrome_of seq (int k) L)"
      unfolding po using pal_at_slice[OF s0 b(1) sn] P by (simp only: c)
    have ext: "py_slice seq (start - 1) (start + L + 1) \<noteq> rev (py_slice seq (start - 1) (start + L + 1))"
      if "0 < start \<and> start + L < ?n"
    proof
      assume R: "py_slice seq (start - 1) (start + L + 1) = rev (py_slice seq (start - 1) (start + L + 1))"
      have e: "start - 1 + (L + 2) = start + L + 1" "2 * (start - 1) + (L + 2) = int k"
        using c by simp_all
      have "pal_at seq (2 * (start - 1) + (L + 2)) (L + 2)
              \<longleftrightarrow> py_slice seq (start - 1) (start - 1 + (L + 2))
                    = rev (py_slice seq (start - 1) (start - 1 + (L + 2)))"
        using that b(1) by (intro pal_at_slice) simp_all
      with R have "pal_at seq (int k) (L + 2)" by (simp only: e)
      with MP show False by (simp add: maxpal_def)
    qed
    have longest: "M \<le> L"
      if M: "0 \<le> M \<and> M mod 2 = int k mod 2
               \<and> 0 \<le> int k div 2 - M div 2
               \<and> int k div 2 - M div 2 + M \<le> ?n
               \<and> palindrome_of seq (int k) M = rev (palindrome_of seq (int k) M)" for M
    proof -
      let ?a = "int k div 2 - M div 2"
      from M have "M mod 2 = int k mod 2" by blast
      then have "even (int k + M)" by presburger
      then have cm: "2 * ?a + M = int k" by (rule centre_start)
      from M have R: "py_slice seq ?a (?a + M) = rev (py_slice seq ?a (?a + M))"
        by (simp add: palindrome_of_def Let_def)
      have "pal_at seq (2 * ?a + M) M \<longleftrightarrow> py_slice seq ?a (?a + M) = rev (py_slice seq ?a (?a + M))"
        using M by (intro pal_at_slice) simp_all
      with R have "pal_at seq (int k) M" by (simp only: cm)
      with MP show ?thesis by (rule maxpal_greatest)
    qed
    from b(1) par c s0 sn po len pal ext longest show ?thesis by blast
  qed
  then have "\<forall>k < length bl.
          let L = bl ! k; start = int k div 2 - L div 2
          in 0 \<le> L \<and> L mod 2 = int k mod 2 \<and> 2 * start + L = int k
             \<and> 0 \<le> start \<and> start + L \<le> int (length seq)
             \<and> palindrome_of seq (int k) L = py_slice seq start (start + L)
             \<and> length (palindrome_of seq (int k) L) = nat L
             \<and> palindrome_of seq (int k) L = rev (palindrome_of seq (int k) L)
             \<and> (0 < start \<and> start + L < int (length seq) \<longrightarrow>
                  py_slice seq (start - 1) (start + L + 1)
                    \<noteq> rev (py_slice seq (start - 1) (start + L + 1)))
             \<and> (\<forall>M. 0 \<le> M \<and> M mod 2 = int k mod 2
                      \<and> 0 \<le> int k div 2 - M div 2
                      \<and> int k div 2 - M div 2 + M \<le> int (length seq)
                      \<and> palindrome_of seq (int k) M = rev (palindrome_of seq (int k) M)
                    \<longrightarrow> M \<le> L)"
    unfolding Let_def by blast
  moreover from prof have "length bl = 2 * length seq + 1" by (simp add: is_profile_def)
  ultimately show ?thesis using run by blast
qed

text \<open>
  The claim at a centre with room on both sides: \<^verbatim>\<open>"xabay"\<close>, index 5 (the \<^verbatim>\<open>b\<close>).
\<close>

theorem naive_entries_witness:
  "naive_longest_palindromes ''xabay'' = Inr [0, 1, 0, 1, 0, 3, 0, 1, 0, 1, 0]
   \<and> (5::nat) < length [0, 1, 0, 1, 0, 3, 0, 1, 0, 1, 0 :: int]
   \<and> (3::int) mod 2 = int 5 mod 2
   \<and> 2 * (int 5 div 2 - 3 div 2) + 3 = int 5
   \<and> palindrome_of ''xabay'' 5 3 = ''aba''
   \<and> (0 < (1::int) \<and> 1 + 3 < int (length ''xabay''))
   \<and> py_slice ''xabay'' 0 5 \<noteq> rev (py_slice ''xabay'' 0 5)
   \<and> (palindrome_of ''xabay'' 5 1 = rev (palindrome_of ''xabay'' 5 1) \<and> (1::int) \<le> 3)"
proof -
  have run: "naive_longest_palindromes ''xabay'' = Inr [0, 1, 0, 1, 0, 3, 0, 1, 0, 1, 0]"
    by code_simp
  from naive_entries_are_longest_palindromes[of "''xabay''"] run
  have "\<forall>k < length [0, 1, 0, 1, 0, 3, 0, 1, 0, 1, 0 :: int].
          let L = [0, 1, 0, 1, 0, 3, 0, 1, 0, 1, 0 :: int] ! k; start = int k div 2 - L div 2
          in 0 \<le> L \<and> L mod 2 = int k mod 2 \<and> 2 * start + L = int k
             \<and> 0 \<le> start \<and> start + L \<le> int (length ''xabay'')
             \<and> palindrome_of ''xabay'' (int k) L = py_slice ''xabay'' start (start + L)
             \<and> length (palindrome_of ''xabay'' (int k) L) = nat L
             \<and> palindrome_of ''xabay'' (int k) L = rev (palindrome_of ''xabay'' (int k) L)
             \<and> (0 < start \<and> start + L < int (length ''xabay'') \<longrightarrow>
                  py_slice ''xabay'' (start - 1) (start + L + 1)
                    \<noteq> rev (py_slice ''xabay'' (start - 1) (start + L + 1)))
             \<and> (\<forall>M. 0 \<le> M \<and> M mod 2 = int k mod 2
                      \<and> 0 \<le> int k div 2 - M div 2
                      \<and> int k div 2 - M div 2 + M \<le> int (length ''xabay'')
                      \<and> palindrome_of ''xabay'' (int k) M = rev (palindrome_of ''xabay'' (int k) M)
                    \<longrightarrow> M \<le> L)"
    by auto
  note at5 = this[rule_format, of 5]
  from at5 have ext: "py_slice ''xabay'' 0 5 \<noteq> rev (py_slice ''xabay'' 0 5)"
    by (simp add: Let_def)
  from at5 have par: "(3::int) mod 2 = int 5 mod 2" "2 * (int 5 div 2 - 3 div 2) + 3 = int 5"
    by (simp_all add: Let_def)
  have po: "palindrome_of ''xabay'' 5 3 = ''aba''" "palindrome_of ''xabay'' 5 1 = ''b''"
    by (simp_all add: palindrome_of_def py_slice_def py_clamp_def)
  from run ext par po show ?thesis by simp
qed

section \<open>The fast function always returns a full profile\<close>

text \<open>
  C3: for every sequence of length \<open>n\<close>, \<^verbatim>\<open>fast_longest_palindromes\<close> raises nothing
  and returns a list of exactly \<open>2 * n + 1\<close> integers, none of them negative; for the
  empty sequence the list is \<open>[0]\<close>.
\<close>

theorem fast_returns_profile:
  "(\<exists>profile. fast_longest_palindromes seq = Inr profile
       \<and> length profile = 2 * length seq + 1
       \<and> (\<forall>v \<in> set profile. 0 \<le> v))
   \<and> fast_longest_palindromes ([] :: 'a list) = Inr [0]"
proof
  from fast_correct[of seq] obtain bl where run: "fast_longest_palindromes seq = Inr bl"
    and prof: "is_profile seq bl" by blast
  have "0 \<le> v" if "v \<in> set bl" for v
  proof -
    from that obtain k where k: "k < length bl" "bl ! k = v" by (auto simp: in_set_conv_nth)
    from pal_at_bounds(1)[OF maxpal_pal[OF is_profile_entry[OF prof k(1)]]] k(2)
    show ?thesis by simp
  qed
  moreover from prof have "length bl = 2 * length seq + 1" by (simp add: is_profile_def)
  ultimately show "\<exists>profile. fast_longest_palindromes seq = Inr profile
       \<and> length profile = 2 * length seq + 1 \<and> (\<forall>v \<in> set profile. 0 \<le> v)"
    using run by blast
next
  from fast_correct[of "[] :: 'a list"] obtain bl
    where run: "fast_longest_palindromes ([] :: 'a list) = Inr bl"
    and prof: "is_profile ([] :: 'a list) bl" by blast
  from prof have len: "length bl = 1" by (simp add: is_profile_def)
  then have k: "0 < length bl" by simp
  note b = pal_at_bounds[OF maxpal_pal[OF is_profile_entry[OF prof k]]]
  from b(1,2) have "bl ! 0 = 0" by simp
  with len have "bl = [0]" by (cases bl) simp_all
  with run show "fast_longest_palindromes ([] :: 'a list) = Inr [0]" by simp
qed

theorem fast_returns_profile_witness:
  "fast_longest_palindromes ''ab'' = Inr [0, 1, 0, 1, 0]
   \<and> length [0, 1, 0, 1, 0 :: int] = 2 * length ''ab'' + 1
   \<and> (1::int) \<in> set [0, 1, 0, 1, 0]
   \<and> (0::int) \<le> 1"
proof -
  have run: "fast_longest_palindromes ''ab'' = Inr [0, 1, 0, 1, 0]" by code_simp
  with fast_returns_profile[of "''ab''"]
  have "length [0, 1, 0, 1, 0 :: int] = 2 * length ''ab'' + 1"
    and all: "\<forall>v \<in> set [0, 1, 0, 1, 0 :: int]. 0 \<le> v" by auto
  moreover have "(1::int) \<in> set [0, 1, 0, 1, 0]" by simp
  moreover from all this have "(0::int) \<le> 1" by (rule bspec)
  ultimately show ?thesis using run by blast
qed

section \<open>Termination\<close>

text \<open>
  C4 says that the cursor \<open>i\<close> stays where it is on the extension path. Line 30 advances
  it: on \<^verbatim>\<open>"aa"\<close> the loop reaches the state \<open>i = 1\<close>, \<open>pal_len = 0\<close> after two
  passes, the next pass takes the extension path and leaves \<open>i = 2\<close>, \<open>pal_len = 2\<close>.
\<close>

theorem cursor_advances_on_extension:
  "main_iter 2 ''aa'' (0, 0, []) = Inr (1, 0, [0, 1])
   \<and> can_extend ''aa'' 1 0 = Inr True
   \<and> main_step ''aa'' (1, 0, [0, 1]) = Inr (2, 2, [0, 1])
   \<and> (2::int) \<noteq> 1"
  by code_simp

text \<open>
  C4, with the cursor as the code moves it. A pass through the body of the main loop that
  raises nothing takes one of three paths: the extension path advances \<open>i\<close> by one, with
  \<open>pal_len\<close> two larger and nothing appended; the \<^verbatim>\<open>break\<close> path (the inner loop
  ends with \<open>Some d\<close>) keeps \<open>i\<close> and sets \<open>pal_len\<close> to \<open>d\<close>, which is smaller than
  before and not negative; the \<^verbatim>\<open>else\<close> path (the inner loop ends with \<open>None\<close>)
  advances \<open>i\<close> by one and sets \<open>pal_len\<close> to 1. So the main loop ends, after some
  number \<open>k\<close> of passes, with \<open>i = n\<close> and at most \<open>2 * n\<close> entries; the final loop
  then ends as well, and the result has exactly \<open>2 * n + 1\<close> entries.
\<close>

theorem fast_terminates:
  "(main_step seq (i, pal_len, bl) = Inr (i', pal_len', bl') \<longrightarrow>
      (can_extend seq i pal_len = Inr True
         \<longrightarrow> i' = i + 1 \<and> pal_len' = pal_len + 2 \<and> bl' = bl)
      \<and> (can_extend seq i pal_len = Inr False
           \<and> inner_loop (int (length (bl @ [pal_len])) - 2)
                (int (length (bl @ [pal_len])) - 2 - pal_len) (bl @ [pal_len]) = Inr (Some d, bl2)
         \<longrightarrow> i' = i \<and> pal_len' = d \<and> bl' = bl2 \<and> 0 \<le> d \<and> d < pal_len)
      \<and> (can_extend seq i pal_len = Inr False
           \<and> inner_loop (int (length (bl @ [pal_len])) - 2)
                (int (length (bl @ [pal_len])) - 2 - pal_len) (bl @ [pal_len]) = Inr (None, bl2)
         \<longrightarrow> i' = i + 1 \<and> pal_len' = 1 \<and> bl' = bl2)
      \<and> (can_extend seq i pal_len = Inr True
           \<or> can_extend seq i pal_len = Inr False
             \<and> (\<exists>r. inner_loop (int (length (bl @ [pal_len])) - 2)
                      (int (length (bl @ [pal_len])) - 2 - pal_len) (bl @ [pal_len]) = Inr r))
      \<and> (i' = i + 1 \<or> (i' = i \<and> 0 \<le> pal_len' \<and> pal_len' < pal_len)))
   \<and> (\<exists>k p best_lengths profile.
         main_iter k seq (0, 0, []) = Inr (int (length seq), p, best_lengths)
       \<and> main_loop seq (0, 0, []) = Inr (int (length seq), p, best_lengths)
       \<and> length best_lengths \<le> 2 * length seq
       \<and> (let bl1 = best_lengths @ [p];
               size = int (length bl1);
               start = size - 2;
               end = start - (2 * int (length seq) + 1 - size)
           in final_loop start end bl1 = Inr profile)
       \<and> fast_longest_palindromes seq = Inr profile
       \<and> length profile = 2 * length seq + 1)"
proof (intro conjI impI)
  assume step: "main_step seq (i, pal_len, bl) = Inr (i', pal_len', bl')"
  then show "i' = i + 1 \<or> (i' = i \<and> 0 \<le> pal_len' \<and> pal_len' < pal_len)"
    by (rule main_step_measure)
  show "can_extend seq i pal_len = Inr True
        \<or> can_extend seq i pal_len = Inr False
          \<and> (\<exists>r. inner_loop (int (length (bl @ [pal_len])) - 2)
                   (int (length (bl @ [pal_len])) - 2 - pal_len) (bl @ [pal_len]) = Inr r)"
    using step by (auto simp: main_step_def Let_def split: sum.splits bool.splits)
  {
    assume "can_extend seq i pal_len = Inr True"
    with step show "i' = i + 1" "pal_len' = pal_len + 2" "bl' = bl"
      by (simp_all add: main_step_def)
  }
  {
    assume "can_extend seq i pal_len = Inr False
           \<and> inner_loop (int (length (bl @ [pal_len])) - 2)
                (int (length (bl @ [pal_len])) - 2 - pal_len) (bl @ [pal_len]) = Inr (Some d, bl2)"
    then have c: "can_extend seq i pal_len = Inr False"
      and r: "inner_loop (int (length (bl @ [pal_len])) - 2)
                (int (length (bl @ [pal_len])) - 2 - pal_len) (bl @ [pal_len]) = Inr (Some d, bl2)"
      by blast+
    from step c r show "i' = i" "pal_len' = d" "bl' = bl2"
      by (simp_all add: main_step_def Let_def)
    from inner_loop_break[OF r] show "0 \<le> d" "d < pal_len" by simp_all
  }
  {
    assume "can_extend seq i pal_len = Inr False
           \<and> inner_loop (int (length (bl @ [pal_len])) - 2)
                (int (length (bl @ [pal_len])) - 2 - pal_len) (bl @ [pal_len]) = Inr (None, bl2)"
    then have c: "can_extend seq i pal_len = Inr False"
      and r: "inner_loop (int (length (bl @ [pal_len])) - 2)
                (int (length (bl @ [pal_len])) - 2 - pal_len) (bl @ [pal_len]) = Inr (None, bl2)"
      by blast+
    from step c r show "i' = i + 1" "pal_len' = 1" "bl' = bl2"
      by (simp_all add: main_step_def Let_def)
  }
next
  let ?n = "int (length seq)"
  from main_loop_correct[OF loop_inv_init] obtain p bl0
    where run: "main_loop seq (0, 0, []) = Inr (?n, p, bl0)" and inv: "loop_inv seq (?n, p, bl0)"
    by blast
  from main_iter_reaches[of seq "(0, 0, [])"] obtain k
    where k: "main_iter k seq (0, 0, []) = Inr (?n, p, bl0)" unfolding run ..
  note s = loop_inv_slice[OF inv]
  from s(1,6) have len: "length bl0 \<le> 2 * length seq" by simp
  from fast_correct[of seq] obtain profile where fast: "fast_longest_palindromes seq = Inr profile"
    and prof: "is_profile seq profile" by blast
  from fast have fin: "(let bl1 = bl0 @ [p];
               size = int (length bl1);
               start = size - 2;
               end = start - (2 * int (length seq) + 1 - size)
           in final_loop start end bl1 = Inr profile)"
    by (simp only: fast_longest_palindromes_def Let_def run sum.case prod.case)
  from prof have "length profile = 2 * length seq + 1" by (simp add: is_profile_def)
  with k run len fin fast
  show "\<exists>k p best_lengths profile.
         main_iter k seq (0, 0, []) = Inr (int (length seq), p, best_lengths)
       \<and> main_loop seq (0, 0, []) = Inr (int (length seq), p, best_lengths)
       \<and> length best_lengths \<le> 2 * length seq
       \<and> (let bl1 = best_lengths @ [p];
               size = int (length bl1);
               start = size - 2;
               end = start - (2 * int (length seq) + 1 - size)
           in final_loop start end bl1 = Inr profile)
       \<and> fast_longest_palindromes seq = Inr profile
       \<and> length profile = 2 * length seq + 1"
    by blast
qed

theorem fast_terminates_witness:
  "main_step ''aa'' (1, 0, [0, 1]) = Inr (2, 2, [0, 1])
   \<and> can_extend ''aa'' 1 0 = Inr True
   \<and> ((2::int) = 1 + 1 \<and> (2::int) = 0 + 2)
   \<and> main_step ''aa'' (1, 1, [0]) = Inr (1, 0, [0, 1])
   \<and> can_extend ''aa'' 1 1 = Inr False
   \<and> inner_loop 0 (- 1) [0, 1] = Inr (Some 0, [0, 1])
   \<and> ((1::int) = 1 \<and> (0::int) \<le> 0 \<and> (0::int) < 1)
   \<and> main_step ''aa'' (0, 0, []) = Inr (1, 1, [0])
   \<and> can_extend ''aa'' 0 0 = Inr False
   \<and> inner_loop (- 1) (- 1) [0] = Inr (None, [0])
   \<and> (1::int) = 0 + 1
   \<and> fast_longest_palindromes ''aa'' = Inr [0, 1, 2, 1, 0]"
proof -
  have e: "main_step ''aa'' (1, 0, [0, 1]) = Inr (2, 2, [0, 1])"
    "can_extend ''aa'' 1 0 = Inr True"
    "main_step ''aa'' (1, 1, [0]) = Inr (1, 0, [0, 1])"
    "can_extend ''aa'' 1 1 = Inr False"
    "inner_loop 0 (- 1) [0, 1] = Inr (Some 0, [0, 1])"
    "main_step ''aa'' (0, 0, []) = Inr (1, 1, [0])"
    "can_extend ''aa'' 0 0 = Inr False"
    "inner_loop (- 1) (- 1) [0] = Inr (None, [0])"
    "fast_longest_palindromes ''aa'' = Inr [0, 1, 2, 1, 0]"
    by code_simp+
  from fast_terminates[of "''aa''" 1 0 "[0, 1]" 2 2 "[0, 1]"] e(1,2)
  have "(2::int) = 1 + 1 \<and> (2::int) = 0 + 2" by blast
  moreover from fast_terminates[of "''aa''" 1 1 "[0]" 1 0 "[0, 1]" 0 "[0, 1]"] e(3,4,5)
  have "(1::int) = 1 \<and> (0::int) \<le> 0 \<and> (0::int) < 1" by simp
  moreover from fast_terminates[of "''aa''" 0 0 "[]" 1 1 "[0]" _ "[0]"] e(6,7,8)
  have "(1::int) = 0 + 1" by simp
  ultimately show ?thesis using e by blast
qed

section \<open>The invariants of the main loop\<close>

text \<open>
  C5: in every state \<open>(i, pal_len, best_lengths)\<close> that the head of the main loop
  reaches, (1) \<^verbatim>\<open>seq[i - pal_len : i]\<close> has \<open>pal_len\<close> elements and is a palindrome;
  (2) \<open>len(best_lengths) \<ge> 2 * i - pal_len\<close>, also with the values of \<open>i\<close> and
  \<open>pal_len\<close> that the extension path leaves; (3) \<open>len(best_lengths) < 2 * i + 1\<close>,
  before the append of line 35 and before every pass of the inner loop, where line 78
  appends.
\<close>

theorem main_loop_invariants:
  "main_iter k seq (0, 0, []) = Inr (i, pal_len, bl) \<Longrightarrow>
     (0 \<le> pal_len \<and> pal_len \<le> i \<and> i \<le> int (length seq)
        \<and> length (py_slice seq (i - pal_len) i) = nat pal_len
        \<and> py_slice seq (i - pal_len) i = rev (py_slice seq (i - pal_len) i))
     \<and> 2 * i - pal_len \<le> int (length bl)
     \<and> (i < int (length seq) \<and> can_extend seq i pal_len = Inr True
          \<longrightarrow> 2 * (i + 1) - (pal_len + 2) \<le> int (length bl))
     \<and> int (length bl) < 2 * i + 1
     \<and> (\<forall>k' j bl'.
           i < int (length seq) \<and> can_extend seq i pal_len = Inr False
           \<and> inner_iter k' (int (length (bl @ [pal_len])) - 2)
                (int (length (bl @ [pal_len])) - 2 - pal_len) (bl @ [pal_len]) = Some (j, bl')
           \<and> int (length (bl @ [pal_len])) - 2 - pal_len < j
         \<longrightarrow> int (length bl') < 2 * i + 1)"
proof -
  assume "main_iter k seq (0, 0, []) = Inr (i, pal_len, bl)"
  with loop_inv_init have inv: "loop_inv seq (i, pal_len, bl)" by (rule main_iter_inv)
  note s = loop_inv_slice[OF inv]
  have inner: "int (length bl') < 2 * i + 1"
    if h: "inner_iter k' (int (length (bl @ [pal_len])) - 2)
                (int (length (bl @ [pal_len])) - 2 - pal_len) (bl @ [pal_len]) = Some (j, bl')"
      "int (length (bl @ [pal_len])) - 2 - pal_len < j" for k' j bl'
  proof -
    from inner_iter_shape[OF h(1)]
    have "j = int (length (bl @ [pal_len])) - 2 - int k'" "length bl' = length (bl @ [pal_len]) + k'"
      by simp_all
    with h(2) s(6) show ?thesis by simp
  qed
  from s(1,6) have "int (length bl) < 2 * i + 1" by simp
  moreover from s(6) have "2 * i - pal_len \<le> int (length bl)"
    "2 * (i + 1) - (pal_len + 2) \<le> int (length bl)" by simp_all
  ultimately show ?thesis using s(1-5) inner by blast
qed

theorem main_loop_invariants_witness:
  "main_iter 4 ''abac'' (0, 0, []) = Inr (3, 3, [0, 1, 0])
   \<and> py_slice ''abac'' (3 - 3) 3 = ''aba''
   \<and> ''aba'' = rev ''aba''
   \<and> (2 * 3 - 3 \<le> int (length [0, 1, 0 :: int]) \<and> int (length [0, 1, 0 :: int]) < 2 * 3 + 1)
   \<and> can_extend ''abac'' 3 3 = Inr False
   \<and> inner_iter 1 2 (- 1) [0, 1, 0, 3] = Some (1, [0, 1, 0, 3, 0])
   \<and> int (length [0, 1, 0, 3, 0 :: int]) < 2 * 3 + 1"
proof -
  have e: "main_iter 4 ''abac'' (0, 0, []) = Inr (3, 3, [0, 1, 0])"
    "can_extend ''abac'' 3 3 = Inr False"
    "inner_iter 1 2 (- 1) [0, 1, 0, 3] = Some (1, [0, 1, 0, 3, 0])"
    "py_slice ''abac'' (3 - 3) 3 = ''aba''"
    by code_simp+
  note t = main_loop_invariants[OF e(1)]
  from t have "py_slice ''abac'' (3 - 3) 3 = rev (py_slice ''abac'' (3 - 3) 3)" by blast
  then have "''aba'' = rev ''aba''" unfolding e(4) .
  moreover from t have "2 * 3 - 3 \<le> int (length [0, 1, 0 :: int])"
    "int (length [0, 1, 0 :: int]) < 2 * 3 + 1" by blast+
  moreover from t have "\<forall>k' j bl'.
           3 < int (length ''abac'') \<and> can_extend ''abac'' 3 3 = Inr False
           \<and> inner_iter k' (int (length ([0, 1, 0] @ [3 :: int])) - 2)
                (int (length ([0, 1, 0] @ [3 :: int])) - 2 - 3) ([0, 1, 0] @ [3]) = Some (j, bl')
           \<and> int (length ([0, 1, 0] @ [3 :: int])) - 2 - 3 < j
         \<longrightarrow> int (length bl') < 2 * 3 + 1" by blast
  from this[rule_format, of 1 1 "[0, 1, 0, 3, 0]"] e(2,3)
  have "int (length [0, 1, 0, 3, 0 :: int]) < 2 * 3 + 1" by simp
  ultimately show ?thesis using e by blast
qed

section \<open>Boundaries, parity, constant sequences\<close>

text \<open>
  C6: for every sequence of length \<open>n\<close>, the first entry (index 0) and the last entry
  (index \<open>2 * n\<close>) of the result are 0, for both functions.
\<close>

theorem boundary_entries_zero:
  "\<exists>profile. fast_longest_palindromes seq = Inr profile
     \<and> naive_longest_palindromes seq = Inr profile
     \<and> length profile = 2 * length seq + 1
     \<and> profile ! 0 = 0
     \<and> profile ! (2 * length seq) = 0"
proof -
  from fast_correct[of seq] obtain a where a: "fast_longest_palindromes seq = Inr a" "is_profile seq a"
    by blast
  from naive_correct[of seq] obtain b where b: "naive_longest_palindromes seq = Inr b" "is_profile seq b"
    by blast
  from a(2) b(2) have ab: "a = b" by (rule is_profile_unique)
  from a(2) have len: "length a = 2 * length seq + 1" by (simp add: is_profile_def)
  then have k: "0 < length a" "2 * length seq < length a" by simp_all
  note first = pal_at_bounds[OF maxpal_pal[OF is_profile_entry[OF a(2) k(1)]]]
  note last = pal_at_bounds[OF maxpal_pal[OF is_profile_entry[OF a(2) k(2)]]]
  from first(1,2) have "a ! 0 = 0" by simp
  moreover from last(1,3) have "a ! (2 * length seq) = 0" by simp
  ultimately show ?thesis using a(1) b(1) ab len by blast
qed

text \<open>
  C7: every entry has the parity of its index, \<^verbatim>\<open>profile[k] % 2 == k % 2\<close>, for both
  functions.
\<close>

theorem entry_parity:
  "\<exists>profile. fast_longest_palindromes seq = Inr profile
     \<and> naive_longest_palindromes seq = Inr profile
     \<and> (\<forall>k < length profile. profile ! k mod 2 = int k mod 2)"
proof -
  from fast_correct[of seq] obtain a where a: "fast_longest_palindromes seq = Inr a" "is_profile seq a"
    by blast
  from naive_correct[of seq] obtain b where b: "naive_longest_palindromes seq = Inr b" "is_profile seq b"
    by blast
  from a(2) b(2) have ab: "a = b" by (rule is_profile_unique)
  have "a ! k mod 2 = int k mod 2" if "k < length a" for k
  proof -
    from pal_at_bounds(4)[OF maxpal_pal[OF is_profile_entry[OF a(2) that]]]
    show ?thesis by presburger
  qed
  with a(1) b(1) ab show ?thesis by blast
qed

theorem entry_parity_witness:
  "fast_longest_palindromes ''abb'' = Inr [0, 1, 0, 1, 2, 1, 0]
   \<and> naive_longest_palindromes ''abb'' = Inr [0, 1, 0, 1, 2, 1, 0]
   \<and> (4::nat) < length [0, 1, 0, 1, 2, 1, 0 :: int]
   \<and> [0, 1, 0, 1, 2, 1, 0 :: int] ! 4 mod 2 = int 4 mod 2"
proof -
  have e: "fast_longest_palindromes ''abb'' = Inr [0, 1, 0, 1, 2, 1, 0]"
    "naive_longest_palindromes ''abb'' = Inr [0, 1, 0, 1, 2, 1, 0]"
    by code_simp+
  with entry_parity[of "''abb''"]
  have "\<forall>k < length [0, 1, 0, 1, 2, 1, 0 :: int]. [0, 1, 0, 1, 2, 1, 0 :: int] ! k mod 2 = int k mod 2"
    by auto
  from this[rule_format, of 4] e show ?thesis by simp
qed

text \<open>
  C8: on a sequence of \<open>m\<close> equal elements, for every \<open>m\<close>, the largest entry of the
  result is \<open>m\<close>; so it is 10000 on 10000 equal elements.
\<close>

theorem constant_sequence_max:
  "(\<exists>profile. fast_longest_palindromes (replicate m x) = Inr profile
       \<and> naive_longest_palindromes (replicate m x) = Inr profile
       \<and> py_max profile = Inr (int m))
   \<and> (\<exists>profile. fast_longest_palindromes (replicate 10000 x) = Inr profile
       \<and> py_max profile = Inr 10000)"
proof -
  have g: "\<exists>profile. fast_longest_palindromes (replicate m x) = Inr profile
       \<and> naive_longest_palindromes (replicate m x) = Inr profile
       \<and> py_max profile = Inr (int m)" for m
  proof -
    let ?s = "replicate m x"
    from fast_correct[of ?s] obtain a where a: "fast_longest_palindromes ?s = Inr a" "is_profile ?s a"
      by blast
    from naive_correct[of ?s] obtain b where b: "naive_longest_palindromes ?s = Inr b" "is_profile ?s b"
      by blast
    from a(2) b(2) have ab: "a = b" by (rule is_profile_unique)
    from replicate_profile_max[OF a(2)] a(1) b(1) ab show ?thesis by blast
  qed
  from g[of 10000] have "\<exists>profile. fast_longest_palindromes (replicate 10000 x) = Inr profile
       \<and> py_max profile = Inr 10000" by auto
  with g[of m] show ?thesis by blast
qed

section \<open>The literal scenarios\<close>

text \<open>
  C9: on \<^verbatim>\<open>"ababa"\<close>, \<^verbatim>\<open>"yabbadabbadoo"\<close> and the empty string, both functions return
  the lists the specification gives.
\<close>

theorem literal_scenarios:
  "fast_longest_palindromes ''ababa'' = Inr [0, 1, 0, 3, 0, 5, 0, 3, 0, 1, 0]
   \<and> naive_longest_palindromes ''ababa'' = Inr [0, 1, 0, 3, 0, 5, 0, 3, 0, 1, 0]
   \<and> fast_longest_palindromes ''yabbadabbadoo''
       = Inr [0, 1, 0, 1, 0, 1, 4, 1, 0, 1, 0, 9, 0, 1, 0, 1, 6, 1, 0, 1, 0, 1, 0, 1, 2, 1, 0]
   \<and> naive_longest_palindromes ''yabbadabbadoo''
       = Inr [0, 1, 0, 1, 0, 1, 4, 1, 0, 1, 0, 9, 0, 1, 0, 1, 6, 1, 0, 1, 0, 1, 0, 1, 2, 1, 0]
   \<and> fast_longest_palindromes ('''' :: string) = Inr [0]
   \<and> naive_longest_palindromes ('''' :: string) = Inr [0]"
  by code_simp

section \<open>Reversal\<close>

text \<open>
  C10: the result on the reversed sequence is the reversed result, for
  \<^verbatim>\<open>naive_longest_palindromes\<close> and for \<^verbatim>\<open>fast_longest_palindromes\<close>.
\<close>

theorem reversal_symmetry:
  "\<exists>profile. naive_longest_palindromes seq = Inr profile
     \<and> naive_longest_palindromes (rev seq) = Inr (rev profile)
     \<and> fast_longest_palindromes seq = Inr profile
     \<and> fast_longest_palindromes (rev seq) = Inr (rev profile)"
proof -
  from naive_correct[of seq] obtain a where a: "naive_longest_palindromes seq = Inr a" "is_profile seq a"
    by blast
  from naive_correct[of "rev seq"] obtain b
    where b: "naive_longest_palindromes (rev seq) = Inr b" "is_profile (rev seq) b" by blast
  from fast_correct[of seq] obtain c where c: "fast_longest_palindromes seq = Inr c" "is_profile seq c"
    by blast
  from fast_correct[of "rev seq"] obtain d
    where d: "fast_longest_palindromes (rev seq) = Inr d" "is_profile (rev seq) d" by blast
  note r = is_profile_rev[OF a(2)]
  have "b = rev a" using b(2) r by (rule is_profile_unique)
  moreover have "d = rev a" using d(2) r by (rule is_profile_unique)
  moreover have "c = a" using c(2) a(2) by (rule is_profile_unique)
  ultimately show ?thesis using a(1) b(1) c(1) d(1) by blast
qed

end
